theory Spec2Isabelle
  imports Complex_Main "HOL-Library.Sublist"
begin

section \<open>Text helpers of index.js\<close>

text \<open>
  JavaScript strings are modelled as \<^typ>\<open>string\<close>, restricted to ASCII text: white space
  is the ASCII part of what \<^verbatim>\<open>\s\<close> and \<^verbatim>\<open>trim\<close> accept, and
  \<^verbatim>\<open>toLowerCase\<close> maps A..Z to a..z. A property that may be absent, null or
  undefined is an \<^typ>\<open>'a option\<close>; every field that is present is taken to hold a
  value of the expected type (a string where the code treats it as text).
\<close>

definition is_ws :: "char \<Rightarrow> bool" where
  "is_ws c = (c \<in> set [CHR '' '', CHR 0x09, CHR 0x0A, CHR 0x0B, CHR 0x0C, CHR 0x0D])"

definition is_word_char :: "char \<Rightarrow> bool" where
  "is_word_char c =
     (c \<in> set ''abcdefghijklmnopqrstuvwxyzABCDEFGHIJKLMNOPQRSTUVWXYZ0123456789_'')"

definition toLowerCase_char :: "char \<Rightarrow> char" where
  "toLowerCase_char c =
     (case map_of (zip ''ABCDEFGHIJKLMNOPQRSTUVWXYZ'' ''abcdefghijklmnopqrstuvwxyz'') c of
        None \<Rightarrow> c
      | Some d \<Rightarrow> d)"

definition toLowerCase :: "string \<Rightarrow> string" where
  "toLowerCase s = map toLowerCase_char s"

definition trim :: "string \<Rightarrow> string" where
  "trim s = rev (dropWhile is_ws (rev (dropWhile is_ws s)))"

text \<open>\<^verbatim>\<open>s.replace(/\s+/g,' ')\<close>: the flag says that the previous character was white
  space, so that a run of white space leaves one blank.\<close>

primrec squeeze :: "bool \<Rightarrow> string \<Rightarrow> string" where
  "squeeze b [] = []"
| "squeeze b (c # cs) =
     (if is_ws c then (if b then squeeze True cs else CHR '' '' # squeeze True cs)
      else c # squeeze False cs)"

definition replace_ws_runs :: "string \<Rightarrow> string" where
  "replace_ws_runs s = squeeze False s"

text \<open>\<^verbatim>\<open>(v||'')\<close> on a string that may be absent.\<close>

definition or_empty :: "string option \<Rightarrow> string" where
  "or_empty v = (case v of None \<Rightarrow> [] | Some s \<Rightarrow> s)"

text \<open>\<^verbatim>\<open>a||b\<close> on two strings that may be absent: the empty string is falsy.\<close>

definition str_or :: "string option \<Rightarrow> string option \<Rightarrow> string option" where
  "str_or a b = (case a of None \<Rightarrow> b | Some s \<Rightarrow> if s = [] then b else Some s)"

text \<open>\<^verbatim>\<open>norm = (s)=> (s||'').toString().trim().toLowerCase().replace(/\s+/g,' ')\<close>\<close>

definition norm :: "string option \<Rightarrow> string" where
  "norm v = replace_ws_runs (toLowerCase (trim (or_empty v)))"

text \<open>\<^verbatim>\<open>hay.includes(needle)\<close>\<close>

fun str_includes :: "string \<Rightarrow> string \<Rightarrow> bool" where
  "str_includes [] k = (k = [])"
| "str_includes (c # cs) k = (prefix k (c # cs) \<or> str_includes cs k)"

text \<open>A regular expression \<^verbatim>\<open>/k\b/\<close> for a literal \<open>k\<close> that ends in a word
  character: \<open>k\<close> occurs and is followed by the end of the text or by a character that is not
  a word character.\<close>

fun test_word_end :: "string \<Rightarrow> string \<Rightarrow> bool" where
  "test_word_end [] k = (k = [])"
| "test_word_end (c # cs) k =
     ((prefix k (c # cs) \<and>
        (case drop (length k) (c # cs) of [] \<Rightarrow> True | d # _ \<Rightarrow> \<not> is_word_char d))
      \<or> test_word_end cs k)"

text \<open>\<^verbatim>\<open>parts.join(' ')\<close>\<close>

fun join_blank :: "string list \<Rightarrow> string" where
  "join_blank [] = []"
| "join_blank [x] = x"
| "join_blank (x # y # r) = x @ CHR '' '' # join_blank (y # r)"

section \<open>Match records\<close>

record team =
  t_name :: "string option"
  t_shortname :: "string option"

text \<open>The fields of an upstream match that the scheduler reads. \<open>m_matchStarted\<close> holds
  \<^verbatim>\<open>String(m.matchStarted)\<close> when the field is present.\<close>

record match =
  m_id :: "string option"
  m_unique_id :: "string option"
  m_matchId :: "string option"
  m_name :: "string option"
  m_series :: "string option"
  m_matchType :: "string option"
  m_status :: "string option"
  m_matchStarted :: "string option"
  m_dateTimeGMT :: "string option"
  m_teamInfo :: "team list option"

text \<open>\<^verbatim>\<open>String(m.id ?? m.unique_id ?? m.matchId ?? m.name ?? '')\<close>: \<^verbatim>\<open>??\<close> skips
  only what is absent, an empty string is kept.\<close>

definition matchIdOf :: "match \<Rightarrow> string" where
  "matchIdOf m =
     (case m_id m of Some s \<Rightarrow> s | None \<Rightarrow>
      (case m_unique_id m of Some s \<Rightarrow> s | None \<Rightarrow>
       (case m_matchId m of Some s \<Rightarrow> s | None \<Rightarrow>
        (case m_name m of Some s \<Rightarrow> s | None \<Rightarrow> []))))"

section \<open>Heuristics (category and gender)\<close>

definition FRANCHISE_MAP :: "string list" where
  "FRANCHISE_MAP = [''indian premier league'', ''ipl'', ''big bash'', ''bbl'',
     ''pakistan super league'', ''psl'', ''caribbean premier league'', ''cpl'', ''the hundred'',
     ''bangladesh premier league'', ''bpl'', ''lanka premier league'', ''lpl'', ''sa20'',
     ''major league cricket'', ''mlc'', ''global t20'', ''gt20'', ''super smash'',
     ''t10 league'', ''abu dhabi t10'']"

definition FIRST_CLASS_MAP :: "string list" where
  "FIRST_CLASS_MAP = [''ranji trophy'', ''sheffield shield'', ''county championship'',
     ''plunket shield'', ''logan cup'', ''quaid-e-azam trophy'', ''four-day'', ''4-day'']"

definition DOMESTIC_LISTA_T20_MAP :: "string list" where
  "DOMESTIC_LISTA_T20_MAP = [''vijay hazare trophy'', ''syed mushtaq ali'', ''smat'',
     ''royal london one-day'', ''deodhar trophy'', ''duleep trophy'', ''momentum one day cup'',
     ''marsh one-day cup'', ''national t20 cup'', ''super50'', ''one-day cup'']"

definition INDIAN_DOMESTIC_SERIES :: "string list" where
  "INDIAN_DOMESTIC_SERIES = [''ranji trophy'', ''vijay hazare'', ''syed mushtaq ali'', ''smat'',
     ''duleep trophy'', ''deodhar trophy'', ''irani cup'', ''elite group'', ''plate'']"

definition STRONG_INTL :: "string list" where
  "STRONG_INTL = [''t20i'', ''odi'', ''test'', ''icc'', ''world cup'', ''asia cup'',
     ''champions trophy'', ''tri-series'', ''tour of'', ''international'']"

definition states :: "string list" where
  "states = [''mumbai'', ''delhi'', ''karnataka'', ''tamil nadu'', ''bengal'', ''saurashtra'',
     ''vidarbha'', ''baroda'', ''gujarat'', ''maharashtra'', ''punjab'', ''services'',
     ''railways'', ''uttarakhand'', ''hyderabad'', ''andhra'', ''kerala'', ''jharkhand'',
     ''jammu'', ''kashmir'', ''haryana'', ''uttar pradesh'', ''madhya pradesh'', ''assam'',
     ''goa'', ''tripura'', ''manipur'', ''meghalaya'', ''mizoram'', ''nagaland'', ''sikkim'',
     ''chhattisgarh'', ''himachal'', ''rajasthan'', ''pondicherry'', ''chandigarh'', ''odisha'',
     ''orissa'']"

text \<open>\<^verbatim>\<open>(match.teamInfo||[]).map(t=>[norm(t.name),norm(t.shortname)]).flat().filter(Boolean).join(' ')\<close>,
  the expression of \<^verbatim>\<open>matchTeamNames\<close>, written out again in
  \<^verbatim>\<open>isIndianDomestic\<close> and \<^verbatim>\<open>guessGender\<close>.\<close>

definition teamInfo_of :: "match \<Rightarrow> team list" where
  "teamInfo_of m = (case m_teamInfo m of None \<Rightarrow> [] | Some ts \<Rightarrow> ts)"

definition matchTeamNames :: "match \<Rightarrow> string" where
  "matchTeamNames m =
     join_blank (filter (\<lambda>s. s \<noteq> [])
       (concat (map (\<lambda>t. [norm (t_name t), norm (t_shortname t)]) (teamInfo_of m))))"

definition series_of :: "match \<Rightarrow> string" where
  "series_of m = norm (str_or (m_series m) (m_name m))"

definition isIndianDomestic :: "match \<Rightarrow> bool" where
  "isIndianDomestic m =
     (if list_ex (str_includes (series_of m)) INDIAN_DOMESTIC_SERIES then True
      else list_ex (str_includes (matchTeamNames m)) states)"

definition guessCategory :: "match \<Rightarrow> string" where
  "guessCategory m =
     (let series = series_of m; mtype = norm (m_matchType m) in
      if isIndianDomestic m then
        (if str_includes series ''ranji'' \<or> str_includes series ''elite group'' \<or> str_includes series ''plate''
            \<or> str_includes mtype ''first class'' \<or> str_includes mtype ''four-day''
            \<or> str_includes mtype ''4-day''
         then ''first-class'' else ''domestic'')
      else if list_ex (str_includes series) FRANCHISE_MAP then ''franchise''
      else if str_includes series ''first class'' \<or> list_ex (str_includes series) FIRST_CLASS_MAP
            \<or> str_includes mtype ''first class'' \<or> str_includes mtype ''four-day''
            \<or> str_includes mtype ''4-day''
        then ''first-class''
      else if str_includes series ''list a'' \<or> list_ex (str_includes series) DOMESTIC_LISTA_T20_MAP
            \<or> str_includes mtype ''list a''
            \<or> (str_includes mtype ''t20'' \<and> \<not> str_includes mtype ''t20i'')
        then ''domestic''
      else if list_ex (str_includes series) STRONG_INTL
            \<or> list_ex (str_includes mtype) [''t20i'', ''odi'', ''test'']
        then ''international''
      else ''domestic'')"

definition guessGender :: "match \<Rightarrow> string" where
  "guessGender m =
     (let series = series_of m; teamStr = matchTeamNames m in
      if str_includes series ''women'' \<or> str_includes series ''womens'' then ''women''
      else if str_includes teamStr '' women'' then ''women''
      else if list_ex (\<lambda>sn. test_word_end sn ''-w'' \<or> test_word_end sn '' women'')
                (map (\<lambda>t. norm (t_shortname t)) (teamInfo_of m))
        then ''women''
      else ''men'')"

text \<open>\<^verbatim>\<open>FINISHED_RE = /(stump|stumps|abandon|no result|completed|won by|finished)/i\<close>;
  the flag \<^verbatim>\<open>i\<close> is modelled by lower-casing the text.\<close>

definition FINISHED_RE_test :: "string \<Rightarrow> bool" where
  "FINISHED_RE_test s =
     list_ex (str_includes (toLowerCase s))
       [''stump'', ''stumps'', ''abandon'', ''no result'', ''completed'', ''won by'', ''finished'']"

text \<open>\<^verbatim>\<open>/(live|day|inning|session|break|opt to bat|opt to bowl)/.test(status)\<close>\<close>

definition LIVE_RE_test :: "string \<Rightarrow> bool" where
  "LIVE_RE_test s =
     list_ex (str_includes s)
       [''live'', ''day'', ''inning'', ''session'', ''break'', ''opt to bat'', ''opt to bowl'']"

definition relevantLive :: "match \<Rightarrow> bool" where
  "relevantLive m =
     (let status = norm (m_status m) in
      if LIVE_RE_test status then True
      else
        (let started = (toLowerCase (or_empty (m_matchStarted m)) = ''true'') in
         if started \<and> \<not> FINISHED_RE_test status then True else False))"

text \<open>\<^verbatim>\<open>(genders||['men','women']).includes(g)\<close> and
  \<^verbatim>\<open>(allowed||[]).includes(cat)\<close>: an empty array is truthy, only an absent one is
  replaced.\<close>

definition genderAllowed :: "match \<Rightarrow> string list option \<Rightarrow> bool" where
  "genderAllowed m genders =
     (guessGender m \<in> set (case genders of None \<Rightarrow> [''men'', ''women''] | Some gs \<Rightarrow> gs))"

definition categoryAllowed :: "match \<Rightarrow> string list option \<Rightarrow> bool" where
  "categoryAllowed m allowed =
     (guessCategory m \<in> set (case allowed of None \<Rightarrow> [] | Some cs \<Rightarrow> cs))"

definition teamAllowed :: "match \<Rightarrow> string list option \<Rightarrow> bool" where
  "teamAllowed m teamFilters =
     (case teamFilters of
        None \<Rightarrow> True
      | Some toks \<Rightarrow>
          if toks = [] then True
          else list_ex (\<lambda>tok. str_includes (matchTeamNames m) (norm (Some tok))) toks)"

text \<open>\<^verbatim>\<open>isFinishedOrStumps(m) = FINISHED_RE.test((m.status||'').toString())\<close>\<close>

definition isFinishedOrStumps :: "match \<Rightarrow> bool" where
  "isFinishedOrStumps m = FINISHED_RE_test (or_empty (m_status m))"


text \<open>\<^verbatim>\<open>isTodayOrLive\<close>. The calendar is a parameter: \<open>utcDate\<close> stands for
  \<^verbatim>\<open>new Date(dtg).toISOString().slice(0,10)\<close> (\<open>None\<close> where the date is invalid and
  \<^verbatim>\<open>toISOString\<close> throws), \<open>today\<close> for \<^verbatim>\<open>todayISO()\<close>.\<close>

definition isTodayOrLive :: "(string \<Rightarrow> string option) \<Rightarrow> string \<Rightarrow> match \<Rightarrow> bool" where
  "isTodayOrLive utcDate today m =
     (case m_dateTimeGMT m of
        None \<Rightarrow> relevantLive m
      | Some dtg \<Rightarrow>
          if dtg \<noteq> [] \<and> utcDate dtg = Some today then True else relevantLive m)"

section \<open>Match source\<close>

text \<open>
  \<^verbatim>\<open>fetchJSON\<close> throws when the request fails (no response), when the response is not
  \<^verbatim>\<open>ok\<close> (a status outside 200..299) and when the body is not JSON. An exception is the
  left summand of the result.
\<close>

datatype fetch_error = NetworkError | HttpError nat | ParseError

datatype 'a response = NoResponse | Response nat "'a option"

definition fetchJSON :: "'a response \<Rightarrow> fetch_error + 'a" where
  "fetchJSON r =
     (case r of
        NoResponse \<Rightarrow> Inl NetworkError
      | Response code body \<Rightarrow>
          if \<not> (200 \<le> code \<and> code \<le> 299) then Inl (HttpError code)
          else (case body of None \<Rightarrow> Inl ParseError | Some j \<Rightarrow> Inr j))"

text \<open>One page of a paginated endpoint: \<^verbatim>\<open>j.status\<close>, \<^verbatim>\<open>j.data\<close> and
  \<^verbatim>\<open>j.info?.totalRows\<close>.\<close>

record page =
  p_status :: "string option"
  p_data :: "match list option"
  p_totalRows :: "int option"

text \<open>The loop of \<^verbatim>\<open>fetchPaginated\<close>; the endpoint answers each offset. The upstream
  decides how long the loop runs, so the function is partial: \<open>None\<close> is a loop that does
  not end.\<close>

partial_function (option) fetchPaginated_from ::
  "(nat \<Rightarrow> page response) \<Rightarrow> match list \<Rightarrow> nat \<Rightarrow> (fetch_error + match list) option" where
  "fetchPaginated_from srv all offset =
     (case fetchJSON (srv offset) of
        Inl e \<Rightarrow> Some (Inl e)
      | Inr j \<Rightarrow>
          if p_status j \<noteq> Some ''success'' then Some (Inr all)
          else
            (let all' = all @ (case p_data j of None \<Rightarrow> [] | Some d \<Rightarrow> d);
                 total = (case p_totalRows j of None \<Rightarrow> 0 | Some t \<Rightarrow> t)
             in if int offset + 25 \<ge> total then Some (Inr all')
                else fetchPaginated_from srv all' (offset + 25)))"

definition fetchPaginated :: "(nat \<Rightarrow> page response) \<Rightarrow> (fetch_error + match list) option" where
  "fetchPaginated srv = fetchPaginated_from srv [] 0"

datatype scorecard = EmptyObject | Scorecard string

text \<open>The three endpoints of the upstream service. The body of a scorecard response is its
  \<^verbatim>\<open>data\<close> property.\<close>

record upstream =
  currentMatches :: "nat \<Rightarrow> page response"
  matches :: "nat \<Rightarrow> page response"
  match_scorecard :: "string \<Rightarrow> string option response"

definition getCurrentMatches :: "upstream \<Rightarrow> (fetch_error + match list) option" where
  "getCurrentMatches up = fetchPaginated (currentMatches up)"

definition on_date :: "(string \<Rightarrow> string option) \<Rightarrow> string \<Rightarrow> match \<Rightarrow> bool" where
  "on_date utcDate isoDay m =
     (case m_dateTimeGMT m of None \<Rightarrow> False | Some dtg \<Rightarrow> utcDate dtg = Some isoDay)"

definition getMatchesForISO ::
  "(string \<Rightarrow> string option) \<Rightarrow> upstream \<Rightarrow> string \<Rightarrow> (fetch_error + match list) option" where
  "getMatchesForISO utcDate up isoDay =
     (case fetchPaginated (matches up) of
        None \<Rightarrow> None
      | Some (Inl e) \<Rightarrow> Some (Inl e)
      | Some (Inr all) \<Rightarrow> Some (Inr (filter (on_date utcDate isoDay) all)))"

definition getTodayMatches ::
  "(string \<Rightarrow> string option) \<Rightarrow> string \<Rightarrow> upstream \<Rightarrow> (fetch_error + match list) option" where
  "getTodayMatches utcDate today up = getMatchesForISO utcDate up today"

definition fetchScorecard :: "upstream \<Rightarrow> string \<Rightarrow> fetch_error + scorecard" where
  "fetchScorecard up matchId =
     (case fetchJSON (match_scorecard up matchId) of
        Inl e \<Rightarrow> Inl e
      | Inr d \<Rightarrow> Inr (case d of None \<Rightarrow> EmptyObject | Some x \<Rightarrow> Scorecard x))"

text \<open>\<^verbatim>\<open>try{return await f();}catch{return[];}\<close>\<close>

definition catch_empty :: "(fetch_error + match list) option \<Rightarrow> match list option" where
  "catch_empty r = (case r of None \<Rightarrow> None | Some (Inl e) \<Rightarrow> Some [] | Some (Inr ms) \<Rightarrow> Some ms)"

definition getCurrentMatchesSafe :: "upstream \<Rightarrow> match list option" where
  "getCurrentMatchesSafe up = catch_empty (getCurrentMatches up)"

definition getTodayMatchesSafe ::
  "(string \<Rightarrow> string option) \<Rightarrow> string \<Rightarrow> upstream \<Rightarrow> match list option" where
  "getTodayMatchesSafe utcDate today up = catch_empty (getTodayMatches utcDate today up)"

definition getMatchesForISOSafe ::
  "(string \<Rightarrow> string option) \<Rightarrow> upstream \<Rightarrow> string \<Rightarrow> match list option" where
  "getMatchesForISOSafe utcDate up isoDay = catch_empty (getMatchesForISO utcDate up isoDay)"


section \<open>Tenant configuration and the effects of a tick\<close>

text \<open>
  One entry of \<^verbatim>\<open>data\<close>. The bookkeeping keys \<^verbatim>\<open>next_due_<gid>\<close>,
  \<^verbatim>\<open>fallback_summary_<gid>\<close> and \<^verbatim>\<open>next_summary_<gid>\<close> are the last three fields.
  Times are seconds since the epoch: \<^verbatim>\<open>Date.now()/1000\<close> and what is computed from it
  are exact rationals (no rounding of doubles), and the two daily timestamps, which the code
  only ever writes as \<^verbatim>\<open>Math.floor(...)\<close> or as such a value plus 86400, are
  integers. \<open>None\<close> in a time field is a key that is absent, or NaN.
\<close>

record config =
  channel_id :: "string option"
  mode :: "string option"
  filters :: "string list option"
  selected_match_ids :: "string list option"
  daily_time :: "string option"
  ping_enabled :: bool
  role_ids :: "string list option"
  team_filters :: "string list option"
  gender_filters :: "string list option"
  is_paused :: bool
  next_due :: "rat option"
  fallback_summary :: "int option"
  next_summary :: "int option"

text \<open>What a tick does to the outside: a message sent to the tenant's channel
  (\<^verbatim>\<open>channel.send\<close>) or \<^verbatim>\<open>saveData()\<close>, recorded with the tenant's entry as it is
  written. Embeds are recorded by the matches they are built from, the text of tomorrow's
  fixtures by the list of matches it prints (the empty list is the message that there are
  none). An effect is recorded when the operation has completed.\<close>

datatype post =
    FinalScorecard string scorecard
  | StoppedTracking string
  | LiveUpdate "string option" match
  | NoFallbackMatches
  | NoDailyMatches
  | SummaryBatch "string option" "match list"
  | TomorrowFixtures "match list"

datatype effect = Send post | Save config

text \<open>What the outside answers during one tenant's turn. The values the tick awaits from
  the match source: \<^verbatim>\<open>getCurrentMatchesSafe()\<close>, \<^verbatim>\<open>getTodayMatchesSafe()\<close>,
  \<^verbatim>\<open>getMatchesForISOSafe(tomorrowISO())\<close> and \<^verbatim>\<open>fetchScorecard(mid)\<close>. And, for
  the \<open>n\<close>-th send or save that the turn attempts (counted from 0), whether it completes or
  throws. A send is the whole statement: building the message
  (\<^verbatim>\<open>scorecardEmbedsFrom\<close>, \<^verbatim>\<open>buildEmbed\<close>, \<^verbatim>\<open>formatTomorrowList\<close>) and every
  \<^verbatim>\<open>channel.send\<close> of it; a save is \<^verbatim>\<open>fs.writeFileSync\<close>.\<close>

record feeds =
  f_current :: "match list"
  f_todays :: "match list"
  f_tomorrow :: "match list"
  f_scorecard :: "string \<Rightarrow> fetch_error + scorecard"
  f_completes :: "nat \<Rightarrow> effect \<Rightarrow> bool"

text \<open>The constants of the process, read from the environment.\<close>

record params =
  POLL_SECONDS :: int
  DAILY_SUMMARY_HHMM :: string

definition IDLE_BACKOFF_SECONDS :: int where
  "IDLE_BACKOFF_SECONDS = 1800"

text \<open>The clock and the platform at one tick. \<open>hhmmToNextDate\<close> stands for
  \<^verbatim>\<open>Math.floor(hhmmToNextDate(hhmm).getTime()/1000)\<close> (\<open>None\<close> is NaN), \<open>channel_fetch\<close>
  says whether \<^verbatim>\<open>client.channels.fetch\<close> resolves to a channel.\<close>

record env =
  now :: rat
  today :: string
  utcDate :: "string \<Rightarrow> string option"
  hhmmToNextDate :: "string \<Rightarrow> int option"
  channel_fetch :: "string \<Rightarrow> bool"

text \<open>\<^verbatim>\<open>new Date(ms).getTime()\<close> for a whole number of milliseconds: NaN outside the range
  of dates.\<close>

definition Date_getTime :: "int \<Rightarrow> int option" where
  "Date_getTime ms = (if \<bar>ms\<bar> \<le> 8640000000000000 then Some ms else None)"

text \<open>\<^verbatim>\<open>Math.floor((new Date(nextRun*1000)).getTime()/1000)+86400\<close>\<close>

definition next_day :: "int \<Rightarrow> int option" where
  "next_day nextRun =
     (case Date_getTime (nextRun * 1000) of
        None \<Rightarrow> None
      | Some ms \<Rightarrow> Some (ms div 1000 + 86400))"

text \<open>\<^verbatim>\<open>!nextRun\<close>\<close>

definition unset :: "int option \<Rightarrow> bool" where
  "unset v = (case v of None \<Rightarrow> True | Some t \<Rightarrow> t = 0)"

text \<open>\<^verbatim>\<open>new Set(xs)\<close> keeps the first occurrence of each element, in order;
  \<^verbatim>\<open>sel.delete(mid)\<close> is \<^const>\<open>removeAll\<close> on it.\<close>

definition new_Set :: "string list \<Rightarrow> string list" where
  "new_Set xs = rev (remdups (rev xs))"

definition or_nil :: "'a list option \<Rightarrow> 'a list" where
  "or_nil v = (case v of None \<Rightarrow> [] | Some xs \<Rightarrow> xs)"

definition mentionText :: "config \<Rightarrow> string option" where
  "mentionText c =
     (if \<not> ping_enabled c then None
      else
        (let roles = map (\<lambda>r. ''<@&'' @ r @ ''>'') (or_nil (role_ids c))
         in if roles \<noteq> [] then Some (join_blank roles) else None))"

text \<open>The locals that \<^verbatim>\<open>tick\<close> computes from a tenant's entry before its branches.\<close>

record locals =
  l_mode :: string
  l_filters :: "string list"
  l_dailyHHMM :: string
  l_pingStr :: "string option"
  l_teams :: "string list"
  l_genders :: "string list"

definition locals_of :: "params \<Rightarrow> config \<Rightarrow> locals" where
  "locals_of K c =
     \<lparr> l_mode = or_empty (str_or (mode c) (Some ''daily'')),
       l_filters = (case filters c of
                      None \<Rightarrow> [''international'', ''first-class'', ''domestic'', ''franchise'']
                    | Some fs \<Rightarrow> fs),
       l_dailyHHMM = or_empty (str_or (daily_time c) (Some (DAILY_SUMMARY_HHMM K))),
       l_pingStr = mentionText c,
       l_teams = or_nil (team_filters c),
       l_genders = (case gender_filters c of None \<Rightarrow> [''men'', ''women''] | Some gs \<Rightarrow> gs) \<rparr>"

text \<open>The state a tenant's turn works on: its entry, the set \<^verbatim>\<open>sel\<close>, the process-wide
  map \<^verbatim>\<open>lastPostedByMatch\<close>, and the flag \<^verbatim>\<open>anyLive\<close> of the custom branch; the number
  of sends and saves attempted so far; and whether an exception is on its way to the
  \<^verbatim>\<open>catch\<close> that ends the turn.\<close>

record turn =
  cfg :: config
  sel :: "string list"
  lastPostedByMatch :: "string \<rightharpoonup> rat"
  anyLive :: bool
  attempts :: nat
  thrown :: bool

text \<open>One send or save. Nothing runs once an exception is on its way; an operation that
  does not complete throws.\<close>

definition attempt :: "feeds \<Rightarrow> effect \<Rightarrow> turn \<Rightarrow> turn \<times> effect list" where
  "attempt f x s =
     (if thrown s then (s, [])
      else if f_completes f (attempts s) x then (s\<lparr> attempts := Suc (attempts s) \<rparr>, [x])
      else (s\<lparr> attempts := Suc (attempts s), thrown := True \<rparr>, []))"

text \<open>\<^verbatim>\<open>await channel.send(...)\<close> and \<^verbatim>\<open>saveData()\<close>, which writes the entry as it is.\<close>

definition channel_send :: "feeds \<Rightarrow> post \<Rightarrow> turn \<Rightarrow> turn \<times> effect list" where
  "channel_send f p s = attempt f (Send p) s"

definition saveData :: "feeds \<Rightarrow> turn \<Rightarrow> turn \<times> effect list" where
  "saveData f s = attempt f (Save (cfg s)) s"

text \<open>Several sends, one after the other.\<close>

fun send_all :: "feeds \<Rightarrow> post list \<Rightarrow> turn \<Rightarrow> turn \<times> effect list" where
  "send_all f [] s = (s, [])"
| "send_all f (p # ps) s =
     (case channel_send f p s of
        (s1, fx1) \<Rightarrow> (case send_all f ps s1 of (s2, fx2) \<Rightarrow> (s2, fx1 @ fx2)))"

section \<open>The custom branch\<close>

definition relevant :: "locals \<Rightarrow> match \<Rightarrow> bool" where
  "relevant l m =
     (categoryAllowed m (Some (l_filters l)) \<and> genderAllowed m (Some (l_genders l))
      \<and> teamAllowed m (Some (l_teams l)))"

text \<open>The names that every object inherits from \<^verbatim>\<open>Object.prototype\<close>. Read on
  \<^verbatim>\<open>lastPostedByMatch\<close>, which starts as \<^verbatim>\<open>{}\<close>, such a key that was never written
  gives a function (or, for \<^verbatim>\<open>__proto__\<close>, an object), not \<^verbatim>\<open>undefined\<close>.\<close>

definition Object_prototype_keys :: "string list" where
  "Object_prototype_keys =
     [''constructor'', ''__defineGetter__'', ''__defineSetter__'', ''hasOwnProperty'',
      ''__lookupGetter__'', ''__lookupSetter__'', ''isPrototypeOf'', ''propertyIsEnumerable'',
      ''toString'', ''valueOf'', ''__proto__'', ''toLocaleString'']"

text \<open>\<^verbatim>\<open>lastPostedByMatch[mid]||0\<close> as a number: the time written for the match; 0 when
  none was written; \<open>None\<close> (NaN, once \<^verbatim>\<open>now-last\<close> is computed) when none was written and
  the key is inherited.\<close>

definition last_posted :: "(string \<rightharpoonup> rat) \<Rightarrow> string \<Rightarrow> rat option" where
  "last_posted lp mid =
     (case lp mid of
        Some t \<Rightarrow> Some t
      | None \<Rightarrow> if mid \<in> set Object_prototype_keys then None else Some 0)"

text \<open>\<^verbatim>\<open>try{ const sc=await fetchScorecard(mid); const embeds=scorecardEmbedsFrom(sc);
  if(embeds.length) await channel.send({content:..., embeds}); }catch{}\<close>: a scorecard
  that cannot be fetched, rendered or sent is swallowed, and the turn goes on.
  \<^verbatim>\<open>scorecardEmbedsFrom\<close> returns at least the summary embed when it returns.\<close>

definition final_scorecard :: "feeds \<Rightarrow> string \<Rightarrow> turn \<Rightarrow> turn \<times> effect list" where
  "final_scorecard f mid s =
     (case f_scorecard f mid of
        Inl err \<Rightarrow> (s, [])
      | Inr sc \<Rightarrow>
          (case channel_send f (FinalScorecard mid sc) s of
             (s1, fx) \<Rightarrow> (s1\<lparr> thrown := thrown s \<rparr>, fx)))"

text \<open>The body of \<^verbatim>\<open>for(const m of matches)\<close>: the new state and what was sent and saved.
  It does not run once an exception has left the loop. An exception thrown by the notice
  that tracking stopped comes after the removal and the save; one thrown by the live update
  comes before \<^verbatim>\<open>lastPostedByMatch[mid]=now\<close>.\<close>

definition custom_step ::
  "params \<Rightarrow> env \<Rightarrow> feeds \<Rightarrow> locals \<Rightarrow> match \<Rightarrow> turn \<Rightarrow> turn \<times> effect list" where
  "custom_step K e f l m s =
     (let mid = matchIdOf m in
      if thrown s then (s, [])
      else if mid \<in> set (sel s) \<and> relevant l m then
        if FINISHED_RE_test (or_empty (m_status m)) then
          (case final_scorecard f mid s of
             (s1, fx1) \<Rightarrow>
               (let sel' = removeAll mid (sel s1);
                    cfg' = (cfg s1)\<lparr> selected_match_ids := Some sel' \<rparr>
                in case saveData f (s1\<lparr> cfg := cfg', sel := sel' \<rparr>) of
                     (s2, fx2) \<Rightarrow>
                       (case channel_send f (StoppedTracking mid) s2 of
                          (s3, fx3) \<Rightarrow> (s3, fx1 @ fx2 @ fx3))))
        else if relevantLive m then
          (let s1 = s\<lparr> anyLive := True \<rparr> in
           case last_posted (lastPostedByMatch s1) mid of
             None \<Rightarrow> (s1, [])
           | Some t \<Rightarrow>
               if now e - t \<ge> of_int (POLL_SECONDS K) - 5 then
                 (case channel_send f (LiveUpdate (l_pingStr l) m) s1 of
                    (s2, fx) \<Rightarrow>
                      if thrown s2 then (s2, fx)
                      else (s2\<lparr> lastPostedByMatch := (lastPostedByMatch s2)(mid \<mapsto> now e) \<rparr>,
                            fx))
               else (s1, []))
        else (s, [])
      else (s, []))"

fun custom_loop ::
  "params \<Rightarrow> env \<Rightarrow> feeds \<Rightarrow> locals \<Rightarrow> match list \<Rightarrow> turn \<Rightarrow> turn \<times> effect list" where
  "custom_loop K e f l [] s = (s, [])"
| "custom_loop K e f l (m # ms) s =
     (case custom_step K e f l m s of
        (s1, fx1) \<Rightarrow>
          (case custom_loop K e f l ms s1 of (s2, fx2) \<Rightarrow> (s2, fx1 @ fx2)))"

datatype branch = BranchA | BranchB | BranchC

text \<open>The conditions of the three \<^verbatim>\<open>if\<close> statements of a tenant's turn, on the mode and
  on the set \<^verbatim>\<open>sel\<close> as it is when the condition is evaluated.\<close>

definition guard :: "branch \<Rightarrow> string \<Rightarrow> string list \<Rightarrow> bool" where
  "guard b md selected =
     (case b of
        BranchA \<Rightarrow> md = ''custom'' \<and> selected \<noteq> []
      | BranchB \<Rightarrow> md = ''custom'' \<and> selected = []
      | BranchC \<Rightarrow> md = ''daily'')"

text \<open>The first \<^verbatim>\<open>if\<close> statement. An exception that leaves the loop skips the write of
  \<^verbatim>\<open>next_due\<close>.\<close>

definition custom_branch ::
  "params \<Rightarrow> env \<Rightarrow> feeds \<Rightarrow> locals \<Rightarrow> turn \<Rightarrow> turn \<times> effect list" where
  "custom_branch K e f l s =
     (if \<not> thrown s \<and> guard BranchA (l_mode l) (sel s) then
        (let nextDue = (case next_due (cfg s) of None \<Rightarrow> 0 | Some t \<Rightarrow> t)
         in if now e \<ge> nextDue then
              (case custom_loop K e f l (f_current f) (s\<lparr> anyLive := False \<rparr>) of
                 (s1, fx1) \<Rightarrow>
                   if thrown s1 then (s1, fx1)
                   else
                     (let cfg' = (cfg s1)\<lparr> next_due :=
                                   Some (now e + of_int (if anyLive s1 then POLL_SECONDS K
                                                         else IDLE_BACKOFF_SECONDS)) \<rparr>
                      in case saveData f (s1\<lparr> cfg := cfg' \<rparr>) of
                           (s2, fx2) \<Rightarrow> (s2, fx1 @ fx2)))
            else (s, []))
      else (s, []))"

section \<open>The two daily branches\<close>

text \<open>A property key that is an array index: a canonical numeral below \<open>2\<^sup>3\<^sup>2 - 1\<close>.\<close>

definition array_index :: "string \<Rightarrow> int option" where
  "array_index k =
     (if k \<noteq> [] \<and> list_all (\<lambda>c. c \<in> set ''0123456789'') k \<and> (length k = 1 \<or> hd k \<noteq> CHR ''0'')
      then
        (let n = foldl (\<lambda>a c. 10 * a + (case map_of (zip ''0123456789'' [0 .. 9]) c of
                                            None \<Rightarrow> 0 | Some d \<Rightarrow> d)) 0 k
         in if n < 4294967295 then Some n else None)
      else None)"

text \<open>\<^verbatim>\<open>Object.values\<close> of an object whose own keys were first written in the order of
  the association list: the values under array indices in ascending order, then the others
  in the order of writing.\<close>

definition Object_values :: "(string \<times> 'a) list \<Rightarrow> 'a list" where
  "Object_values al =
     map snd (sort_key (\<lambda>kv. case array_index (fst kv) of None \<Rightarrow> 0 | Some n \<Rightarrow> n)
                (filter (\<lambda>kv. array_index (fst kv) \<noteq> None) al))
     @ map snd (filter (\<lambda>kv. array_index (fst kv) = None) al)"

text \<open>Writing a key of its own to the object \<^verbatim>\<open>byId\<close>: an association list in the
  order in which the keys were first written.\<close>

fun byId_put :: "(string \<times> match) list \<Rightarrow> match \<Rightarrow> (string \<times> match) list" where
  "byId_put [] m = [(matchIdOf m, m)]"
| "byId_put ((k, v) # r) m =
     (if k = matchIdOf m then (k, m) # r else (k, v) # byId_put r m)"

text \<open>\<^verbatim>\<open>byId[matchIdOf(m)]=m\<close> on an object that starts as \<^verbatim>\<open>{}\<close>. The key
  \<^verbatim>\<open>__proto__\<close> is the inherited accessor: the assignment replaces the prototype of
  \<^verbatim>\<open>byId\<close> and writes no key of its own.\<close>

definition byId_assign :: "(string \<times> match) list \<Rightarrow> match \<Rightarrow> (string \<times> match) list" where
  "byId_assign al m = (if matchIdOf m = ''__proto__'' then al else byId_put al m)"

text \<open>\<^verbatim>\<open>const byId={}; for(const m of [...todays,...current]) byId[matchIdOf(m)]=m;\<close> and
  \<^verbatim>\<open>Object.values(byId)\<close>\<close>

definition byId_values :: "match list \<Rightarrow> match list" where
  "byId_values ms = Object_values (foldl byId_assign [] ms)"

text \<open>\<^verbatim>\<open>for(let i=0;i<matches.length;i+=8) matches.slice(i,i+8)\<close>\<close>

fun slices :: "'a list \<Rightarrow> 'a list list" where
  "slices xs = (if xs = [] then [] else take 8 xs # slices (drop 8 xs))"

declare slices.simps [simp del]

text \<open>\<^verbatim>\<open>if(matches.length===0) await channel.send(...); else { for(...) await
  channel.send({content:(i===0? pingStr:undefined), embeds:slice.map(buildEmbed), ...}); }\<close>:
  the messages of a summary, in the order in which they are sent. Without matches it is the
  one message that says so; otherwise embeds in batches of eight, the mention with the
  first.\<close>

definition summary_posts :: "string option \<Rightarrow> post \<Rightarrow> match list \<Rightarrow> post list" where
  "summary_posts pingStr none ms =
     (if ms = [] then [none]
      else
        (case slices ms of
           [] \<Rightarrow> []
         | b # bs \<Rightarrow> SummaryBatch pingStr b # map (SummaryBatch None) bs))"

text \<open>The filter of \<^verbatim>\<open>formatTomorrowList\<close>, and \<^verbatim>\<open>sendTomorrowsInternationals\<close>.\<close>

definition formatTomorrowList ::
  "match list \<Rightarrow> string list option \<Rightarrow> string list option \<Rightarrow> match list" where
  "formatTomorrowList ms genders teams =
     filter (\<lambda>m. teamAllowed m teams)
       (filter (\<lambda>m. genderAllowed m genders)
         (filter (\<lambda>m. guessCategory m = ''international'') ms))"

definition sendTomorrowsInternationals :: "feeds \<Rightarrow> config \<Rightarrow> turn \<Rightarrow> turn \<times> effect list" where
  "sendTomorrowsInternationals f c s =
     channel_send f
       (TomorrowFixtures
          (formatTomorrowList (f_tomorrow f)
             (Some (case gender_filters c of None \<Rightarrow> [''men'', ''women''] | Some gs \<Rightarrow> gs))
             (Some (or_nil (team_filters c))))) s"

definition fallback_ok :: "env \<Rightarrow> locals \<Rightarrow> match \<Rightarrow> bool" where
  "fallback_ok e l m =
     (let cat = guessCategory m;
          ok = (cat = ''international'' \<or> (cat = ''domestic'' \<and> isIndianDomestic m)
                \<or> (cat = ''first-class'' \<and> isIndianDomestic m))
      in ok \<and> isTodayOrLive (utcDate e) (today e) m \<and> genderAllowed m (Some (l_genders l))
         \<and> teamAllowed m (Some (l_teams l)))"

definition daily_ok :: "env \<Rightarrow> locals \<Rightarrow> match \<Rightarrow> bool" where
  "daily_ok e l m =
     (categoryAllowed m (Some (l_filters l)) \<and> isTodayOrLive (utcDate e) (today e) m
      \<and> genderAllowed m (Some (l_genders l)) \<and> teamAllowed m (Some (l_teams l)))"

text \<open>The second \<^verbatim>\<open>if\<close> statement. It is not reached once an exception has been thrown;
  an exception thrown by a message of the summary skips the write of the timestamp.\<close>

definition fallback_branch ::
  "env \<Rightarrow> feeds \<Rightarrow> locals \<Rightarrow> turn \<Rightarrow> turn \<times> effect list" where
  "fallback_branch e f l s =
     (if \<not> thrown s \<and> guard BranchB (l_mode l) (sel s) then
        (case fallback_summary (cfg s) of
           None \<Rightarrow>
             saveData f
               (s\<lparr> cfg := (cfg s)\<lparr> fallback_summary := hhmmToNextDate e (l_dailyHHMM l) \<rparr> \<rparr>)
         | Some nextRun \<Rightarrow>
             if unset (Some nextRun) then
               saveData f
                 (s\<lparr> cfg := (cfg s)\<lparr> fallback_summary := hhmmToNextDate e (l_dailyHHMM l) \<rparr> \<rparr>)
             else if now e \<ge> of_int nextRun then
               (let ms = filter (fallback_ok e l) (byId_values (f_todays f @ f_current f))
                in case send_all f (summary_posts (l_pingStr l) NoFallbackMatches ms) s of
                     (s1, fx1) \<Rightarrow>
                       (case sendTomorrowsInternationals f (cfg s1) s1 of
                          (s2, fx2) \<Rightarrow>
                            if thrown s2 then (s2, fx1 @ fx2)
                            else
                              (case saveData f
                                      (s2\<lparr> cfg := (cfg s2)\<lparr> fallback_summary :=
                                                              next_day nextRun \<rparr> \<rparr>) of
                                 (s3, fx3) \<Rightarrow> (s3, fx1 @ fx2 @ fx3))))
             else (s, []))
      else (s, []))"

text \<open>The third \<^verbatim>\<open>if\<close> statement.\<close>

definition daily_branch ::
  "env \<Rightarrow> feeds \<Rightarrow> locals \<Rightarrow> turn \<Rightarrow> turn \<times> effect list" where
  "daily_branch e f l s =
     (if \<not> thrown s \<and> guard BranchC (l_mode l) (sel s) then
        (case next_summary (cfg s) of
           None \<Rightarrow>
             saveData f
               (s\<lparr> cfg := (cfg s)\<lparr> next_summary := hhmmToNextDate e (l_dailyHHMM l) \<rparr> \<rparr>)
         | Some nextRun \<Rightarrow>
             if unset (Some nextRun) then
               saveData f
                 (s\<lparr> cfg := (cfg s)\<lparr> next_summary := hhmmToNextDate e (l_dailyHHMM l) \<rparr> \<rparr>)
             else if now e \<ge> of_int nextRun then
               (let ms = filter (daily_ok e l) (byId_values (f_todays f @ f_current f))
                in case send_all f (summary_posts (l_pingStr l) NoDailyMatches ms) s of
                     (s1, fx1) \<Rightarrow>
                       (case sendTomorrowsInternationals f (cfg s1) s1 of
                          (s2, fx2) \<Rightarrow>
                            if thrown s2 then (s2, fx1 @ fx2)
                            else
                              (case saveData f
                                      (s2\<lparr> cfg := (cfg s2)\<lparr> next_summary :=
                                                              next_day nextRun \<rparr> \<rparr>) of
                                 (s3, fx3) \<Rightarrow> (s3, fx1 @ fx2 @ fx3))))
             else (s, []))
      else (s, []))"

section \<open>The scheduler\<close>

text \<open>A tenant is skipped when it is paused, has no channel, or its channel cannot be
  fetched.\<close>

definition enabled :: "env \<Rightarrow> config \<Rightarrow> bool" where
  "enabled e c =
     (\<not> is_paused c \<and>
      (case channel_id c of None \<Rightarrow> False | Some ch \<Rightarrow> ch \<noteq> [] \<and> channel_fetch e ch))"

definition start_turn :: "config \<Rightarrow> (string \<rightharpoonup> rat) \<Rightarrow> turn" where
  "start_turn c lp =
     \<lparr> cfg = c, sel = new_Set (or_nil (selected_match_ids c)), lastPostedByMatch = lp,
       anyLive = False, attempts = 0, thrown = False \<rparr>"

text \<open>One pass of the body of \<^verbatim>\<open>for(const [gId,cfg] of Object.entries(data))\<close>: the three
  \<^verbatim>\<open>if\<close> statements run one after the other on the same \<^verbatim>\<open>sel\<close>. The \<^verbatim>\<open>catch\<close>
  around the pass logs an exception and drops it: the entry and the throttle map stay as
  they were when it was thrown.\<close>

definition tick_guild ::
  "params \<Rightarrow> env \<Rightarrow> feeds \<Rightarrow> config \<Rightarrow> (string \<rightharpoonup> rat)
     \<Rightarrow> config \<times> (string \<rightharpoonup> rat) \<times> effect list" where
  "tick_guild K e f c lp =
     (if \<not> enabled e c then (c, lp, [])
      else
        (let l = locals_of K c in
         case custom_branch K e f l (start_turn c lp) of
           (s1, fx1) \<Rightarrow>
             (case fallback_branch e f l s1 of
                (s2, fx2) \<Rightarrow>
                  (case daily_branch e f l s2 of
                     (s3, fx3) \<Rightarrow> (cfg s3, lastPostedByMatch s3, fx1 @ fx2 @ fx3)))))"

text \<open>The branches whose condition holds when the turn reaches it; a turn that has thrown
  reaches no further condition.\<close>

definition branches_entered ::
  "params \<Rightarrow> env \<Rightarrow> feeds \<Rightarrow> config \<Rightarrow> (string \<rightharpoonup> rat) \<Rightarrow> branch list" where
  "branches_entered K e f c lp =
     (if \<not> enabled e c then []
      else
        (let l = locals_of K c;
             s0 = start_turn c lp;
             s1 = fst (custom_branch K e f l s0);
             s2 = fst (fallback_branch e f l s1)
         in (if guard BranchA (l_mode l) (sel s0) then [BranchA] else [])
            @ (if \<not> thrown s1 \<and> guard BranchB (l_mode l) (sel s1) then [BranchB] else [])
            @ (if \<not> thrown s2 \<and> guard BranchC (l_mode l) (sel s2) then [BranchC] else [])))"

text \<open>\<^verbatim>\<open>tick\<close>: every tenant in the order of \<^verbatim>\<open>Object.entries(data)\<close>, sharing
  \<^verbatim>\<open>lastPostedByMatch\<close>. \<open>feedsOf g\<close> is what the outside answers during the turn of
  tenant \<open>g\<close>. The effects are recorded with the tenant's id.\<close>

fun tick ::
  "params \<Rightarrow> env \<Rightarrow> (string \<Rightarrow> feeds) \<Rightarrow> (string \<times> config) list \<Rightarrow> (string \<rightharpoonup> rat)
     \<Rightarrow> (string \<times> config) list \<times> (string \<rightharpoonup> rat) \<times> (string \<times> effect) list" where
  "tick K e feedsOf [] lp = ([], lp, [])"
| "tick K e feedsOf ((g, c) # rest) lp =
     (case tick_guild K e (feedsOf g) c lp of
        (c', lp1, fx) \<Rightarrow>
          (case tick K e feedsOf rest lp1 of
             (rest', lp2, fx') \<Rightarrow> ((g, c') # rest', lp2, map (Pair g) fx @ fx')))"

text \<open>The process: \<^verbatim>\<open>setInterval(tick, 60*1000)\<close> runs one tick after the other, each
  with its own clock and answers. The log holds every effect with the time of its tick.\<close>

fun run ::
  "params \<Rightarrow> (env \<times> (string \<Rightarrow> feeds)) list \<Rightarrow> (string \<times> config) list \<Rightarrow> (string \<rightharpoonup> rat)
     \<Rightarrow> (rat \<times> string \<times> effect) list" where
  "run K [] d lp = []"
| "run K ((e, feedsOf) # ticks) d lp =
     (case tick K e feedsOf d lp of
        (d', lp', fx) \<Rightarrow> map (Pair (now e)) fx @ run K ticks d' lp')"

text \<open>The turns that one tenant takes in later ticks, each with its own clock, answers and
  throttle map (which the turns of other tenants change in between), on the entry as the
  turn before left it: what they send and save.\<close>

fun later_turns ::
  "params \<Rightarrow> (env \<times> feeds \<times> (string \<rightharpoonup> rat)) list \<Rightarrow> config \<Rightarrow> effect list" where
  "later_turns K [] c = []"
| "later_turns K ((e, f, lp) # ts) c =
     (case tick_guild K e f c lp of (c', lp', fx) \<Rightarrow> fx @ later_turns K ts c')"

text \<open>Reading a log. The identity of the match that a live update is about; the
  identities that the posts of the custom branch name; the matches of a summary's embeds;
  the entry that was saved last.\<close>

fun live_id :: "effect \<Rightarrow> string list" where
  "live_id (Send (LiveUpdate p m)) = [matchIdOf m]"
| "live_id x = []"

definition live_ids :: "effect list \<Rightarrow> string list" where
  "live_ids fx = concat (map live_id fx)"

fun tracked_id :: "effect \<Rightarrow> string list" where
  "tracked_id (Send (FinalScorecard i sc)) = [i]"
| "tracked_id (Send (StoppedTracking i)) = [i]"
| "tracked_id (Send (LiveUpdate p m)) = [matchIdOf m]"
| "tracked_id x = []"

definition tracked_ids :: "effect list \<Rightarrow> string list" where
  "tracked_ids fx = concat (map tracked_id fx)"

fun summary_of :: "effect \<Rightarrow> match list" where
  "summary_of (Send (SummaryBatch p ms)) = ms"
| "summary_of x = []"

definition summary_matches :: "effect list \<Rightarrow> match list" where
  "summary_matches fx = concat (map summary_of fx)"

fun saved_of :: "effect \<Rightarrow> config list" where
  "saved_of (Save c) = [c]"
| "saved_of x = []"

definition saved :: "effect list \<Rightarrow> config list" where
  "saved fx = concat (map saved_of fx)"

definition last_saved :: "effect list \<Rightarrow> config option" where
  "last_saved fx = (if saved fx = [] then None else Some (last (saved fx)))"

text \<open>The live-update posts of the log of a run: time, tenant and match identity.\<close>

definition live_posts :: "(rat \<times> string \<times> effect) list \<Rightarrow> (rat \<times> string \<times> string) list" where
  "live_posts lg = concat (map (\<lambda>(t, g, x). map (\<lambda>i. (t, g, i)) (live_id x)) lg)"

text \<open>The filter of the \<^verbatim>\<open>cricket-list\<close> command.\<close>

definition cricket_list :: "config \<Rightarrow> match list \<Rightarrow> match list" where
  "cricket_list c current =
     filter (\<lambda>m. teamAllowed m (Some (or_nil (team_filters c))))
       (filter (\<lambda>m. genderAllowed m
                  (Some (case gender_filters c of None \<Rightarrow> [''men'', ''women''] | Some gs \<Rightarrow> gs)))
         (filter (\<lambda>m. categoryAllowed m (Some (or_nil (filters c)))) current))"

section \<open>Auxiliary notions\<close>

text \<open>The finished vocabulary as the specification lists it.\<close>

definition finished_vocabulary :: "string list" where
  "finished_vocabulary =
     [''stumps'', ''abandoned'', ''no result'', ''completed'', ''won by'', ''finished'']"

text \<open>A fragment whose white space is single blanks between other characters.\<close>

fun tidy :: "string \<Rightarrow> bool" where
  "tidy [] = False"
| "tidy [c] = (\<not> is_ws c)"
| "tidy (c # d # r) = (((c = CHR '' '' \<and> \<not> is_ws d) \<or> \<not> is_ws c) \<and> tidy (d # r))"

text \<open>The entry of a list of matches that a later entry with the same identity does not
  replace.\<close>

definition latest :: "match list \<Rightarrow> match \<Rightarrow> bool" where
  "latest xs m = (\<exists>p r. xs = p @ m # r \<and> matchIdOf m \<notin> matchIdOf ` set r)"

text \<open>A list of live-update posts (time, tenant, identity) in which two posts about the same
  match are at least the poll interval less five seconds apart.\<close>

fun spaced :: "int \<Rightarrow> (rat \<times> string \<times> string) list \<Rightarrow> bool" where
  "spaced P [] = True"
| "spaced P ((t, g, i) # r) =
     ((\<forall>(t', g', i') \<in> set r. i' = i \<longrightarrow> t + of_int P - 5 \<le> t') \<and> spaced P r)"

text \<open>Every post of the list is at or before \<open>T\<close>, and the throttle map holds a time at or
  after it for its match.\<close>

definition recorded :: "rat \<Rightarrow> (rat \<times> string \<times> string) list \<Rightarrow> (string \<rightharpoonup> rat) \<Rightarrow> bool" where
  "recorded T L lp = (\<forall>(t, g, i) \<in> set L. t \<le> T \<and> (\<exists>t'. lp i = Some t' \<and> t \<le> t'))"

text \<open>An association list as \<^verbatim>\<open>byId\<close> holds it: every match under its own identity,
  every identity once.\<close>

definition keyed :: "(string \<times> match) list \<Rightarrow> bool" where
  "keyed al = ((\<forall>(k, v) \<in> set al. k = matchIdOf v) \<and> distinct (map fst al))"

text \<open>The page at an offset is fetched, reports success, and reports more rows than the
  offset plus 25: \<^verbatim>\<open>fetchPaginated\<close> goes on to the next page.\<close>

definition continues :: "(nat \<Rightarrow> page response) \<Rightarrow> nat \<Rightarrow> bool" where
  "continues srv offset =
     (case fetchJSON (srv offset) of
        Inl err \<Rightarrow> False
      | Inr j \<Rightarrow> p_status j = Some ''success''
                \<and> int offset + 25 < (case p_totalRows j of None \<Rightarrow> 0 | Some t \<Rightarrow> t))"

text \<open>Every send and save of a turn completes, except possibly a final scorecard (which the
  turn attempts inside a \<^verbatim>\<open>try\<close> of its own).\<close>

fun is_final_scorecard :: "effect \<Rightarrow> bool" where
  "is_final_scorecard (Send (FinalScorecard i sc)) = True"
| "is_final_scorecard x = False"

definition reliable :: "feeds \<Rightarrow> bool" where
  "reliable f = (\<forall>n x. is_final_scorecard x \<or> f_completes f n x)"

section \<open>Example inputs\<close>

text \<open>A franchise fixture whose teams carry the names of Indian cities.\<close>

definition ex_ipl :: match where
  "ex_ipl = \<lparr> m_id = Some ''ipl-1'', m_unique_id = None, m_matchId = None,
     m_name = Some ''Mumbai Indians vs Chennai Super Kings'',
     m_series = Some ''Indian Premier League 2024'', m_matchType = Some ''t20'',
     m_status = Some ''Live'', m_matchStarted = Some ''true'', m_dateTimeGMT = None,
     m_teamInfo = Some [\<lparr> t_name = Some ''Mumbai Indians'', t_shortname = Some ''MI'' \<rparr>,
                        \<lparr> t_name = Some ''Chennai Super Kings'', t_shortname = Some ''CSK'' \<rparr>] \<rparr>"

text \<open>A Test match at the close of a day's play, and the same match once it is won.\<close>

definition ex_stumps :: match where
  "ex_stumps = \<lparr> m_id = Some ''test-1'', m_unique_id = None, m_matchId = None,
     m_name = Some ''India vs Australia, 2nd Test'',
     m_series = Some ''Australia tour of India'', m_matchType = Some ''test'',
     m_status = Some ''Stumps - Day 2'', m_matchStarted = Some ''true'',
     m_dateTimeGMT = Some ''2024-03-01T04:00:00'',
     m_teamInfo = Some [\<lparr> t_name = Some ''India'', t_shortname = Some ''IND'' \<rparr>,
                        \<lparr> t_name = Some ''Australia'', t_shortname = Some ''AUS'' \<rparr>] \<rparr>"

definition ex_won :: match where
  "ex_won = ex_stumps \<lparr> m_status := Some ''India won by 6 wkts'' \<rparr>"

text \<open>A process with the default poll interval, a clock, a tenant in custom mode that
  tracks the Test match, and an outside that returns a given list of current matches and
  a scorecard for every identity, and completes every send and save.\<close>

definition ex_params :: params where
  "ex_params = \<lparr> POLL_SECONDS = 600, DAILY_SUMMARY_HHMM = ''2100'' \<rparr>"

definition ex_env :: "rat \<Rightarrow> env" where
  "ex_env t = \<lparr> now = t, today = ''2024-03-01'', utcDate = (\<lambda>d. Some (take 10 d)),
     hhmmToNextDate = (\<lambda>h. Some 1709326800), channel_fetch = (\<lambda>ch. True) \<rparr>"

definition ex_cfg :: config where
  "ex_cfg = \<lparr> channel_id = Some ''scores'', mode = Some ''custom'',
     filters = Some [''international'', ''domestic''], selected_match_ids = Some [''test-1''],
     daily_time = Some ''2100'', ping_enabled = False, role_ids = Some [],
     team_filters = Some [], gender_filters = Some [''men'', ''women''], is_paused = False,
     next_due = None, fallback_summary = None, next_summary = None \<rparr>"

definition ex_feeds :: "match list \<Rightarrow> feeds" where
  "ex_feeds ms = \<lparr> f_current = ms, f_todays = [], f_tomorrow = [],
     f_scorecard = (\<lambda>i. Inr (Scorecard ''card'')), f_completes = (\<lambda>n x. True) \<rparr>"

text \<open>The Test match with the status "Match Tied"; a match source whose scorecard
  endpoint fails; the tenant's entry once the won match has been untracked.\<close>

definition ex_tied :: match where
  "ex_tied = ex_stumps \<lparr> m_status := Some ''Match Tied'' \<rparr>"

definition ex_no_scorecard :: feeds where
  "ex_no_scorecard = (ex_feeds [ex_won]) \<lparr> f_scorecard := (\<lambda>i. Inl NetworkError) \<rparr>"

definition ex_cfg_untracked :: config where
  "ex_cfg_untracked = ex_cfg \<lparr> selected_match_ids := Some [], next_due := Some 1709301800,
     fallback_summary := Some 1709326800 \<rparr>"

text \<open>The Test match during a session, and a throttle map that records a post about it.\<close>

definition ex_live :: match where
  "ex_live = ex_stumps \<lparr> m_status := Some ''Day 2: 2nd Session'' \<rparr>"

definition ex_posted :: "string \<rightharpoonup> rat" where
  "ex_posted = [''test-1'' \<mapsto> 1709299400]"

text \<open>Two tenants that track the Test match, the second one due 300 seconds after the
  first, and three ticks.\<close>

definition ex_two_tenants :: "(string \<times> config) list" where
  "ex_two_tenants = [(''g2'', ex_cfg \<lparr> next_due := Some 1709300300 \<rparr>), (''g1'', ex_cfg)]"

definition ex_three_ticks :: "(env \<times> (string \<Rightarrow> feeds)) list" where
  "ex_three_ticks = map (\<lambda>t. (ex_env t, (\<lambda>g. ex_feeds [ex_live])))
     [1709300000, 1709300300, 1709300900]"

text \<open>The untracked tenant with a category filter that admits franchise matches only; a match
  source whose scheduled matches hold an older record of the Test match and the franchise
  fixture; a tenant in daily mode; a tenant whose mode is neither custom nor daily.\<close>

definition ex_cfg_franchise :: config where
  "ex_cfg_franchise = ex_cfg_untracked \<lparr> filters := Some [''franchise''] \<rparr>"

definition ex_merge :: feeds where
  "ex_merge = (ex_feeds [ex_won]) \<lparr> f_todays := [ex_stumps, ex_ipl] \<rparr>"

definition ex_cfg_daily :: config where
  "ex_cfg_daily = ex_cfg \<lparr> mode := Some ''daily'', selected_match_ids := Some [],
     next_summary := Some 1709326800 \<rparr>"

definition ex_cfg_weekly :: config where
  "ex_cfg_weekly = ex_cfg \<lparr> mode := Some ''weekly'' \<rparr>"

text \<open>An upstream whose current matches fail after the first page, whose scheduled matches
  answer 503, and whose scorecards are not JSON.\<close>

definition ex_upstream :: upstream where
  "ex_upstream =
     \<lparr> currentMatches = (\<lambda>offset. if offset = 0
          then Response 200 (Some \<lparr> p_status = Some ''success'', p_data = Some [ex_live],
                                    p_totalRows = Some 30 \<rparr>)
          else NoResponse),
       matches = (\<lambda>offset. Response 503 None),
       match_scorecard = (\<lambda>i. Response 200 None) \<rparr>"

text \<open>A channel that refuses every message; a final scorecard that cannot be rendered or
  sent; a record of the Test match under the identity \<^verbatim>\<open>__proto__\<close>.\<close>

definition ex_refused :: "feeds \<Rightarrow> feeds" where
  "ex_refused f = f \<lparr> f_completes := (\<lambda>n x. case x of Send p \<Rightarrow> False | Save c \<Rightarrow> True) \<rparr>"

definition ex_unrendered :: "feeds \<Rightarrow> feeds" where
  "ex_unrendered f = f \<lparr> f_completes := (\<lambda>n x. \<not> is_final_scorecard x) \<rparr>"

definition ex_proto :: match where
  "ex_proto = ex_live \<lparr> m_id := Some ''__proto__'' \<rparr>"

section \<open>Properties of the classifier\<close>

text \<open>
  Claim C7. Whenever the names of the participants contain one of the Indian region names of
  \<^verbatim>\<open>isIndianDomestic\<close>, \<^verbatim>\<open>guessCategory\<close> answers before it looks at the franchise
  and international lists: first-class when the series contains ranji, elite group or plate,
  or the match type contains first class, four-day or 4-day, and domestic otherwise; never
  international and never franchise.
\<close>

theorem regional_domestic_category:
  assumes "list_ex (str_includes (matchTeamNames m)) states"
  shows "guessCategory m =
           (if str_includes (series_of m) ''ranji'' \<or> str_includes (series_of m) ''elite group''
               \<or> str_includes (series_of m) ''plate''
               \<or> str_includes (norm (m_matchType m)) ''first class''
               \<or> str_includes (norm (m_matchType m)) ''four-day''
               \<or> str_includes (norm (m_matchType m)) ''4-day''
            then ''first-class'' else ''domestic'')
         \<and> guessCategory m \<noteq> ''international'' \<and> guessCategory m \<noteq> ''franchise''"
proof -
  have dom: "isIndianDomestic m"
    using assms by (simp add: isIndianDomestic_def)
  then show ?thesis
    by (simp add: guessCategory_def Let_def)
qed

text \<open>The franchise fixture of the examples: its series is on the franchise list, its teams
  name Mumbai, and the category is domestic.\<close>

theorem regional_domestic_category_witness:
  "list_ex (str_includes (matchTeamNames ex_ipl)) states
   \<and> list_ex (str_includes (series_of ex_ipl)) FRANCHISE_MAP
   \<and> guessCategory ex_ipl = ''domestic''"
proof -
  have h: "list_ex (str_includes (matchTeamNames ex_ipl)) states"
    by code_simp
  have fr: "list_ex (str_includes (series_of ex_ipl)) FRANCHISE_MAP"
    by code_simp
  have nfc: "\<not> (str_includes (series_of ex_ipl) ''ranji''
               \<or> str_includes (series_of ex_ipl) ''elite group''
               \<or> str_includes (series_of ex_ipl) ''plate''
               \<or> str_includes (norm (m_matchType ex_ipl)) ''first class''
               \<or> str_includes (norm (m_matchType ex_ipl)) ''four-day''
               \<or> str_includes (norm (m_matchType ex_ipl)) ''4-day'')"
    by code_simp
  from regional_domestic_category [OF h] nfc have "guessCategory ex_ipl = ''domestic''"
    by simp
  with h fr show ?thesis by simp
qed

subsection \<open>Normalisation keeps the finished vocabulary\<close>

lemma str_includes_sublist: "str_includes s k = sublist k s"
  by (induction s) (auto simp: sublist_Cons_right)

lemma is_ws_lower: "is_ws (toLowerCase_char c) = is_ws c"
  by (simp add: toLowerCase_char_def is_ws_def)

lemma lower_idem: "toLowerCase_char (toLowerCase_char c) = toLowerCase_char c"
  by (simp add: toLowerCase_char_def)

lemma lower_blank: "toLowerCase_char CHR '' '' = CHR '' ''"
  by (simp add: toLowerCase_char_def)

lemma toLowerCase_idem: "toLowerCase (toLowerCase s) = toLowerCase s"
  by (simp add: toLowerCase_def lower_idem)

lemma toLowerCase_squeeze: "toLowerCase (squeeze b s) = squeeze b (toLowerCase s)"
  by (induction s arbitrary: b) (simp_all add: toLowerCase_def is_ws_lower lower_blank)

lemma toLowerCase_dropWhile:
  "toLowerCase (dropWhile is_ws s) = dropWhile is_ws (toLowerCase s)"
  by (induction s) (simp_all add: toLowerCase_def is_ws_lower)

lemma toLowerCase_rev: "toLowerCase (rev t) = rev (toLowerCase t)"
  by (simp add: toLowerCase_def rev_map)

lemma toLowerCase_trim: "toLowerCase (trim s) = trim (toLowerCase s)"
  by (simp add: trim_def toLowerCase_rev toLowerCase_dropWhile)

lemma toLowerCase_norm: "toLowerCase (norm v) = norm v"
  by (simp add: norm_def replace_ws_runs_def toLowerCase_squeeze toLowerCase_idem)

lemma tidy_last: "tidy k \<Longrightarrow> \<not> is_ws (last k)"
  by (induction k rule: tidy.induct) auto

lemma squeeze_tidy:
  "tidy k \<Longrightarrow> (is_ws (hd k) \<Longrightarrow> \<not> b) \<Longrightarrow> squeeze b (k @ q) = k @ squeeze False q"
proof (induction k arbitrary: b rule: tidy.induct)
  case 1
  then show ?case by simp
next
  case (2 c)
  then show ?case by simp
next
  case (3 c d r)
  show ?case
  proof (cases "is_ws c")
    case True
    with "3.prems" have c: "c = CHR '' ''" and d: "\<not> is_ws d" and t: "tidy (d # r)" and b: "\<not> b"
      by auto
    from "3.IH" [OF t, of True] d have "squeeze True ((d # r) @ q) = (d # r) @ squeeze False q"
      by simp
    with True c b show ?thesis by simp
  next
    case False
    with "3.prems" have t: "tidy (d # r)" by auto
    from "3.IH" [OF t, of False] have "squeeze False ((d # r) @ q) = (d # r) @ squeeze False q"
      by simp
    with False show ?thesis by simp
  qed
qed

lemma squeeze_before: "\<not> is_ws c \<Longrightarrow> squeeze b (p @ c # r) = squeeze b p @ c # squeeze False r"
  by (induction p arbitrary: b) simp_all

lemma sublist_squeeze:
  assumes "tidy k" "\<not> is_ws (hd k)" "sublist k s"
  shows "sublist k (squeeze b s)"
proof -
  from assms(3) obtain p q where s: "s = p @ k @ q"
    by (auto simp: sublist_def)
  from assms(1) obtain c k' where k: "k = c # k'"
    by (cases k) auto
  with assms(2) have c: "\<not> is_ws c" by simp
  have "squeeze b s = squeeze b p @ c # squeeze False (k' @ q)"
    using squeeze_before [OF c] by (simp add: s k)
  also have "c # squeeze False (k' @ q) = squeeze False (k @ q)"
    using c by (simp add: k)
  also have "squeeze False (k @ q) = k @ squeeze False q"
    using squeeze_tidy [OF assms(1)] assms(2) by blast
  finally show ?thesis by simp
qed

lemma sublist_dropWhile_keep:
  assumes "k \<noteq> []" "\<not> P (hd k)" "sublist k s"
  shows "sublist k (dropWhile P s)"
proof -
  from assms(3) obtain p q where s: "s = p @ k @ q"
    by (auto simp: sublist_def)
  from assms(1,2) have dk: "dropWhile P (k @ q) = k @ q"
    by (cases k) auto
  show ?thesis
  proof (cases "\<forall>x\<in>set p. P x")
    case True
    then have "dropWhile P s = k @ q"
      by (simp add: s dk)
    then show ?thesis by simp
  next
    case False
    then have "dropWhile P s = dropWhile P p @ k @ q"
      by (auto simp: s dropWhile_append)
    then show ?thesis by simp
  qed
qed

lemma sublist_trim:
  assumes "k \<noteq> []" "\<not> is_ws (hd k)" "\<not> is_ws (last k)" "sublist k s"
  shows "sublist k (trim s)"
proof -
  have "sublist k (dropWhile is_ws s)"
    using assms(1,2,4) by (rule sublist_dropWhile_keep)
  then have "sublist (rev k) (rev (dropWhile is_ws s))"
    by simp
  moreover have "rev k \<noteq> []" "\<not> is_ws (hd (rev k))"
    using assms(1,3) by (simp_all add: hd_rev)
  ultimately have "sublist (rev k) (dropWhile is_ws (rev (dropWhile is_ws s)))"
    by (intro sublist_dropWhile_keep)
  then show ?thesis
    unfolding trim_def by (simp add: sublist_rev_left)
qed

lemma sublist_norm:
  assumes "tidy k" "\<not> is_ws (hd k)" "sublist k (toLowerCase s)"
  shows "sublist k (norm (Some s))"
proof -
  from assms(1) have ne: "k \<noteq> []" by auto
  have "sublist k (trim (toLowerCase s))"
    using ne assms(2) tidy_last [OF assms(1)] assms(3) by (rule sublist_trim)
  then have "sublist k (squeeze False (trim (toLowerCase s)))"
    using assms(1,2) by (intro sublist_squeeze)
  then show ?thesis
    by (simp add: norm_def replace_ws_runs_def toLowerCase_trim or_empty_def)
qed

lemma FINISHED_RE_norm:
  assumes "FINISHED_RE_test s"
  shows "FINISHED_RE_test (norm (Some s))"
proof -
  let ?ws = "[''stump'', ''stumps'', ''abandon'', ''no result'', ''completed'', ''won by'', ''finished'']"
  from assms obtain k where k: "k \<in> set ?ws" and inc: "sublist k (toLowerCase s)"
    unfolding FINISHED_RE_test_def list_ex_iff str_includes_sublist by blast
  from k have "tidy k \<and> \<not> is_ws (hd k)"
    by (auto simp: is_ws_def)
  with inc have "sublist k (norm (Some s))"
    by (auto intro: sublist_norm)
  with k show ?thesis
    unfolding FINISHED_RE_test_def list_ex_iff str_includes_sublist toLowerCase_norm by blast
qed

subsection \<open>Finished and live\<close>

lemma norm_or_empty: "norm (Some (or_empty v)) = norm v"
  by (simp add: norm_def or_empty_def split: option.splits)

lemma finished_not_live:
  assumes "FINISHED_RE_test (or_empty (m_status m))" "\<not> LIVE_RE_test (norm (m_status m))"
  shows "isFinishedOrStumps m \<and> \<not> relevantLive m"
proof -
  have "FINISHED_RE_test (norm (m_status m))"
    using FINISHED_RE_norm [OF assms(1)] by (simp add: norm_or_empty)
  with assms show ?thesis
    by (simp add: isFinishedOrStumps_def relevantLive_def Let_def)
qed

lemma vocabulary_finished:
  assumes "w \<in> set finished_vocabulary"
  shows "FINISHED_RE_test w \<and> \<not> LIVE_RE_test (norm (Some w))"
proof -
  have "list_all (\<lambda>w. FINISHED_RE_test w \<and> \<not> LIVE_RE_test (norm (Some w))) finished_vocabulary"
    by code_simp
  with assms show ?thesis
    by (simp add: list_all_iff)
qed

text \<open>
  Claim C4, as the code has it. A status that matches \<^verbatim>\<open>FINISHED_RE\<close> and, once
  normalised, matches none of the words of the live test (live, day, inning, session, break,
  opt to bat, opt to bowl) is finished and not live, whatever \<^verbatim>\<open>matchStarted\<close> says;
  each phrase of the finished vocabulary, taken as the whole status, is such a status. A
  status that matches \<^verbatim>\<open>FINISHED_RE\<close> and one of the words of the live test is finished
  and live.
\<close>

theorem finished_excludes_live:
  "(FINISHED_RE_test (or_empty (m_status m)) \<and> \<not> LIVE_RE_test (norm (m_status m))
      \<longrightarrow> isFinishedOrStumps m \<and> \<not> relevantLive m)
   \<and> (or_empty (m_status m) \<in> set finished_vocabulary
      \<longrightarrow> isFinishedOrStumps m \<and> \<not> relevantLive m)
   \<and> (FINISHED_RE_test (or_empty (m_status m)) \<and> LIVE_RE_test (norm (m_status m))
      \<longrightarrow> isFinishedOrStumps m \<and> relevantLive m)"
proof -
  have 1: "isFinishedOrStumps m \<and> \<not> relevantLive m"
    if "FINISHED_RE_test (or_empty (m_status m)) \<and> \<not> LIVE_RE_test (norm (m_status m))"
    using that finished_not_live by blast
  have 2: "isFinishedOrStumps m \<and> \<not> relevantLive m"
    if "or_empty (m_status m) \<in> set finished_vocabulary"
    using vocabulary_finished [OF that] finished_not_live [of m] by (simp add: norm_or_empty)
  have 3: "isFinishedOrStumps m \<and> relevantLive m"
    if "FINISHED_RE_test (or_empty (m_status m)) \<and> LIVE_RE_test (norm (m_status m))"
    using that by (simp add: isFinishedOrStumps_def relevantLive_def Let_def)
  from 1 2 3 show ?thesis by blast
qed

text \<open>A match won by wickets, started upstream: finished, not live. The same for the
  bare status "no result".\<close>

theorem finished_excludes_live_witness:
  "FINISHED_RE_test (or_empty (m_status ex_won)) \<and> \<not> LIVE_RE_test (norm (m_status ex_won))
   \<and> toLowerCase (or_empty (m_matchStarted ex_won)) = ''true''
   \<and> isFinishedOrStumps ex_won \<and> \<not> relevantLive ex_won
   \<and> or_empty (m_status (ex_won \<lparr> m_status := Some ''no result'' \<rparr>)) \<in> set finished_vocabulary
   \<and> isFinishedOrStumps (ex_won \<lparr> m_status := Some ''no result'' \<rparr>)
   \<and> \<not> relevantLive (ex_won \<lparr> m_status := Some ''no result'' \<rparr>)"
proof -
  have h1: "FINISHED_RE_test (or_empty (m_status ex_won))" by code_simp
  have h2: "\<not> LIVE_RE_test (norm (m_status ex_won))" by code_simp
  have h3: "toLowerCase (or_empty (m_matchStarted ex_won)) = ''true''" by code_simp
  have h4: "or_empty (m_status (ex_won \<lparr> m_status := Some ''no result'' \<rparr>)) \<in> set finished_vocabulary"
    by (simp add: or_empty_def finished_vocabulary_def)
  show ?thesis
    using finished_excludes_live [of ex_won]
      finished_excludes_live [of "ex_won \<lparr> m_status := Some ''no result'' \<rparr>"] h1 h2 h3 h4
    by blast
qed

text \<open>The live test looks at the status first and never asks whether it is finished:
  "Stumps - Day 2" matches \<^verbatim>\<open>FINISHED_RE\<close> (stump) and the live test (day), so the
  match is finished and live at once.\<close>

theorem finished_and_live_counterexample:
  "FINISHED_RE_test (or_empty (m_status ex_stumps))
   \<and> isFinishedOrStumps ex_stumps \<and> relevantLive ex_stumps"
  by code_simp

section \<open>Properties of the scheduler\<close>

subsection \<open>Reading logs\<close>

lemma live_ids_append [simp]: "live_ids (a @ b) = live_ids a @ live_ids b"
  by (simp add: live_ids_def)

lemma tracked_ids_append [simp]: "tracked_ids (a @ b) = tracked_ids a @ tracked_ids b"
  by (simp add: tracked_ids_def)

lemma summary_matches_append [simp]:
  "summary_matches (a @ b) = summary_matches a @ summary_matches b"
  by (simp add: summary_matches_def)

lemma live_ids_tracked: "set (live_ids fx) \<subseteq> set (tracked_ids fx)"
proof (induction fx)
  case Nil
  then show ?case by (simp add: live_ids_def tracked_ids_def)
next
  case (Cons x fx)
  have "set (live_id x) \<subseteq> set (tracked_id x)"
    by (cases x rule: tracked_id.cases) simp_all
  with Cons show ?case
    by (auto simp: live_ids_def tracked_ids_def)
qed

lemma saved_append [simp]: "saved (a @ b) = saved a @ saved b"
  by (simp add: saved_def)

lemma saved_simps [simp]:
  "saved [] = []" "saved (Save c # fx) = c # saved fx" "saved (Send p # fx) = saved fx"
  by (simp_all add: saved_def)

lemma last_saved_append:
  "last_saved (a @ b) = (if last_saved b = None then last_saved a else last_saved b)"
  by (simp add: last_saved_def)

lemma last_saved_Cons:
  "last_saved (x # b) = (if last_saved b = None then last_saved [x] else last_saved b)"
  using last_saved_append [of "[x]" b] by simp

lemma last_saved_snoc [simp]: "last_saved (a @ [Save c]) = Some c"
  by (simp add: last_saved_def)

lemma last_saved_end [simp]: "last_saved (a @ b @ [Save c]) = Some c"
  using last_saved_snoc [of "a @ b" c] by simp

lemma last_saved_Nil [simp]: "last_saved [] = None"
  by (simp add: last_saved_def)

lemma last_saved_Send [simp]: "last_saved [Send p] = None"
  by (simp add: last_saved_def)

lemma last_saved_single [simp]: "last_saved [Save c] = Some c"
  by (simp add: last_saved_def)

lemma last_saved_Cons_end [simp]: "last_saved (x # a @ [Save c]) = Some c"
  using last_saved_snoc [of "x # a" c] by simp


subsection \<open>Sends and saves\<close>

lemma attempt_cases:
  assumes "attempt f x s = (s', fx)"
  obtains
    (dead) "thrown s" "s' = s" "fx = []"
  | (completed) "\<not> thrown s" "f_completes f (attempts s) x"
      "s' = s\<lparr> attempts := Suc (attempts s) \<rparr>" "fx = [x]"
  | (threw) "\<not> thrown s" "\<not> f_completes f (attempts s) x"
      "s' = s\<lparr> attempts := Suc (attempts s), thrown := True \<rparr>" "fx = []"
  using assms by (auto simp: attempt_def split: if_splits)

text \<open>An operation changes neither the entry nor the selection nor the throttle map; it is
  recorded if and only if the turn goes on after it.\<close>

lemma attempt_frame:
  assumes "attempt f x s = (s', fx)"
  shows "cfg s' = cfg s" "sel s' = sel s" "lastPostedByMatch s' = lastPostedByMatch s"
    "anyLive s' = anyLive s" "thrown s \<Longrightarrow> thrown s'" "thrown s' \<Longrightarrow> fx = []"
    "\<not> thrown s' \<Longrightarrow> fx = [x]" "fx = [] \<or> fx = [x]"
    "\<not> thrown s \<Longrightarrow> f_completes f (attempts s) x \<Longrightarrow> \<not> thrown s'"
  using assms by (auto elim!: attempt_cases)

lemma is_final_scorecard_simps [simp]:
  "\<not> is_final_scorecard (Save c)" "\<not> is_final_scorecard (Send (StoppedTracking i))"
  "\<not> is_final_scorecard (Send (LiveUpdate p m))" "\<not> is_final_scorecard (Send NoFallbackMatches)"
  "\<not> is_final_scorecard (Send NoDailyMatches)" "\<not> is_final_scorecard (Send (SummaryBatch p ms))"
  "\<not> is_final_scorecard (Send (TomorrowFixtures ms))"
  by simp_all

lemma reliable_completes: "reliable f \<Longrightarrow> \<not> is_final_scorecard x \<Longrightarrow> f_completes f n x"
  by (auto simp: reliable_def)

lemma attempt_reliable:
  assumes "attempt f x s = (s', fx)" "reliable f" "\<not> is_final_scorecard x" "\<not> thrown s"
  shows "\<not> thrown s'"
proof -
  from assms(2,3) have "f_completes f (attempts s) x"
    by (auto simp: reliable_def)
  with attempt_frame(9) [OF assms(1) assms(4)] show ?thesis .
qed

lemma saveData_frame:
  assumes "saveData f s = (s', fx)"
  shows "cfg s' = cfg s" "sel s' = sel s" "lastPostedByMatch s' = lastPostedByMatch s"
    "anyLive s' = anyLive s" "thrown s \<Longrightarrow> thrown s'" "thrown s' \<Longrightarrow> fx = []"
    "\<not> thrown s' \<Longrightarrow> fx = [Save (cfg s')]" "fx = [] \<or> fx = [Save (cfg s')]"
    "reliable f \<Longrightarrow> \<not> thrown s \<Longrightarrow> \<not> thrown s'"
proof -
  from assms have a: "attempt f (Save (cfg s)) s = (s', fx)"
    by (simp add: saveData_def)
  note fr = attempt_frame [OF a]
  show "cfg s' = cfg s" "sel s' = sel s" "lastPostedByMatch s' = lastPostedByMatch s"
    "anyLive s' = anyLive s"
    by (rule fr)+
  show "thrown s \<Longrightarrow> thrown s'"
    by (rule fr(5))
  show "thrown s' \<Longrightarrow> fx = []"
    by (rule fr(6))
  show "\<not> thrown s' \<Longrightarrow> fx = [Save (cfg s')]"
    using fr(1,7) by simp
  show "fx = [] \<or> fx = [Save (cfg s')]"
    using fr(1,8) by simp
  show "reliable f \<Longrightarrow> \<not> thrown s \<Longrightarrow> \<not> thrown s'"
    using attempt_reliable [OF a] by simp
qed

lemma channel_send_frame:
  assumes "channel_send f p s = (s', fx)"
  shows "cfg s' = cfg s" "sel s' = sel s" "lastPostedByMatch s' = lastPostedByMatch s"
    "anyLive s' = anyLive s" "thrown s \<Longrightarrow> thrown s'" "thrown s' \<Longrightarrow> fx = []"
    "\<not> thrown s' \<Longrightarrow> fx = [Send p]" "fx = [] \<or> fx = [Send p]"
    "\<not> thrown s \<Longrightarrow> f_completes f (attempts s) (Send p) \<Longrightarrow> \<not> thrown s'"
proof -
  from assms have a: "attempt f (Send p) s = (s', fx)"
    by (simp add: channel_send_def)
  note fr = attempt_frame [OF a]
  show "cfg s' = cfg s" "sel s' = sel s" "lastPostedByMatch s' = lastPostedByMatch s"
    "anyLive s' = anyLive s"
    by (rule fr)+
  show "thrown s \<Longrightarrow> thrown s'"
    by (rule fr(5))
  show "thrown s' \<Longrightarrow> fx = []"
    by (rule fr(6))
  show "\<not> thrown s' \<Longrightarrow> fx = [Send p]"
    by (rule fr(7))
  show "fx = [] \<or> fx = [Send p]"
    by (rule fr(8))
  show "\<not> thrown s \<Longrightarrow> f_completes f (attempts s) (Send p) \<Longrightarrow> \<not> thrown s'"
    by (rule fr(9))
qed

lemma channel_send_reliable:
  assumes "channel_send f p s = (s', fx)" "reliable f" "\<not> is_final_scorecard (Send p)"
    "\<not> thrown s"
  shows "\<not> thrown s'"
proof -
  from assms(1) have a: "attempt f (Send p) s = (s', fx)"
    by (simp add: channel_send_def)
  from attempt_reliable [OF a assms(2,3,4)] show ?thesis .
qed

text \<open>Several sends: a prefix of the messages is sent, all of them when nothing is thrown.\<close>

lemma send_all_thrown: "thrown s \<Longrightarrow> send_all f ps s = (s, [])"
  by (induction ps) (simp_all add: channel_send_def attempt_def)

lemma send_all_frame:
  "send_all f ps s = (s', fx) \<Longrightarrow>
     cfg s' = cfg s \<and> sel s' = sel s \<and> lastPostedByMatch s' = lastPostedByMatch s
     \<and> (thrown s \<longrightarrow> thrown s') \<and> prefix fx (map Send ps)
     \<and> (\<not> thrown s' \<longrightarrow> fx = map Send ps)"
proof (induction ps arbitrary: s s' fx)
  case Nil
  then show ?case by simp
next
  case (Cons p ps)
  obtain s1 fx1 where a: "channel_send f p s = (s1, fx1)"
    by (cases "channel_send f p s")
  obtain s2 fx2 where b: "send_all f ps s1 = (s2, fx2)"
    by (cases "send_all f ps s1")
  from Cons.prems a b have res: "s' = s2" "fx = fx1 @ fx2"
    by simp_all
  note fa = channel_send_frame [OF a] and fb = Cons.IH [OF b]
  show ?case
  proof (cases "thrown s1")
    case True
    with fa fb have "fx1 = []" "thrown s2" by simp_all
    moreover from True b have "fx2 = []"
      by (simp add: send_all_thrown)
    ultimately show ?thesis
      using fa fb by (simp add: res)
  next
    case False
    with fa have "fx1 = [Send p]" by simp
    with fa fb False show ?thesis
      by (auto simp: res)
  qed
qed

lemma send_all_reliable:
  "send_all f ps s = (s', fx) \<Longrightarrow> reliable f \<Longrightarrow> \<forall>p \<in> set ps. \<not> is_final_scorecard (Send p)
   \<Longrightarrow> \<not> thrown s \<Longrightarrow> \<not> thrown s'"
proof (induction ps arbitrary: s s' fx)
  case Nil
  then show ?case by simp
next
  case (Cons p ps)
  obtain s1 fx1 where a: "channel_send f p s = (s1, fx1)"
    by (cases "channel_send f p s")
  obtain s2 fx2 where b: "send_all f ps s1 = (s2, fx2)"
    by (cases "send_all f ps s1")
  from Cons.prems(1) a b have res: "s' = s2"
    by simp
  from channel_send_reliable [OF a Cons.prems(2) _ Cons.prems(4)] Cons.prems(3)
  have "\<not> thrown s1" by simp
  from Cons.IH [OF b Cons.prems(2) _ this] Cons.prems(3) show ?case
    by (simp add: res)
qed

text \<open>The final scorecard: whatever happens to it, the turn goes on.\<close>

lemma final_scorecard_frame:
  assumes "final_scorecard f i s = (s', fx)"
  shows "cfg s' = cfg s" "sel s' = sel s" "lastPostedByMatch s' = lastPostedByMatch s"
    "anyLive s' = anyLive s" "thrown s' = thrown s"
    "fx = [] \<or> (\<exists>sc. f_scorecard f i = Inr sc \<and> fx = [Send (FinalScorecard i sc)])"
    "\<not> thrown s \<Longrightarrow> f_scorecard f i = Inr sc
       \<Longrightarrow> f_completes f (attempts s) (Send (FinalScorecard i sc))
       \<Longrightarrow> fx = [Send (FinalScorecard i sc)]"
proof -
  show "cfg s' = cfg s" "sel s' = sel s" "lastPostedByMatch s' = lastPostedByMatch s"
    "anyLive s' = anyLive s" "thrown s' = thrown s"
    using assms
    by (auto simp: final_scorecard_def channel_send_def attempt_def
             split: sum.splits if_splits)
  show "fx = [] \<or> (\<exists>sc. f_scorecard f i = Inr sc \<and> fx = [Send (FinalScorecard i sc)])"
    using assms
    by (auto simp: final_scorecard_def channel_send_def attempt_def
             split: sum.splits if_splits)
  show "fx = [Send (FinalScorecard i sc)]"
    if "\<not> thrown s" "f_scorecard f i = Inr sc"
      "f_completes f (attempts s) (Send (FinalScorecard i sc))"
    using assms that
    by (auto simp: final_scorecard_def channel_send_def attempt_def)
qed

subsection \<open>One step of the custom loop\<close>

lemma custom_step_cases:
  assumes "custom_step K e f l m s = (s', fx)"
  obtains
    (skip) "s' = s" "fx = []"
      "thrown s \<or> \<not> (matchIdOf m \<in> set (sel s) \<and> relevant l m)
       \<or> (\<not> FINISHED_RE_test (or_empty (m_status m)) \<and> \<not> relevantLive m)"
  | (finished) fx1 rest where "\<not> thrown s" "matchIdOf m \<in> set (sel s)" "relevant l m"
      "FINISHED_RE_test (or_empty (m_status m))"
      "sel s' = removeAll (matchIdOf m) (sel s)"
      "cfg s' = (cfg s)\<lparr> selected_match_ids := Some (removeAll (matchIdOf m) (sel s)) \<rparr>"
      "lastPostedByMatch s' = lastPostedByMatch s"
      "fx = fx1 @ rest"
      "fx1 = [] \<or> (\<exists>sc. f_scorecard f (matchIdOf m) = Inr sc
                        \<and> fx1 = [Send (FinalScorecard (matchIdOf m) sc)])"
      "\<And>sc. f_scorecard f (matchIdOf m) = Inr sc
         \<Longrightarrow> f_completes f (attempts s) (Send (FinalScorecard (matchIdOf m) sc))
         \<Longrightarrow> fx1 = [Send (FinalScorecard (matchIdOf m) sc)]"
      "prefix rest [Save (cfg s'), Send (StoppedTracking (matchIdOf m))]"
      "\<not> thrown s' \<Longrightarrow> rest = [Save (cfg s'), Send (StoppedTracking (matchIdOf m))]"
      "reliable f \<Longrightarrow> \<not> thrown s'"
  | (post) t where "\<not> thrown s" "matchIdOf m \<in> set (sel s)" "relevant l m"
      "\<not> FINISHED_RE_test (or_empty (m_status m))" "relevantLive m"
      "last_posted (lastPostedByMatch s) (matchIdOf m) = Some t"
      "now e - t \<ge> of_int (POLL_SECONDS K) - 5"
      "f_completes f (attempts s) (Send (LiveUpdate (l_pingStr l) m))"
      "s' = s\<lparr> anyLive := True, attempts := Suc (attempts s),
               lastPostedByMatch := (lastPostedByMatch s)(matchIdOf m \<mapsto> now e) \<rparr>"
      "fx = [Send (LiveUpdate (l_pingStr l) m)]"
  | (quiet) "\<not> thrown s" "matchIdOf m \<in> set (sel s)" "relevant l m"
      "\<not> FINISHED_RE_test (or_empty (m_status m))" "relevantLive m"
      "sel s' = sel s" "cfg s' = cfg s" "lastPostedByMatch s' = lastPostedByMatch s"
      "fx = []"
      "thrown s' \<Longrightarrow> \<not> f_completes f (attempts s) (Send (LiveUpdate (l_pingStr l) m))"
      "\<And>t. last_posted (lastPostedByMatch s) (matchIdOf m) = Some t
         \<Longrightarrow> now e - t \<ge> of_int (POLL_SECONDS K) - 5
         \<Longrightarrow> \<not> f_completes f (attempts s) (Send (LiveUpdate (l_pingStr l) m))"
proof (cases "thrown s \<or> \<not> (matchIdOf m \<in> set (sel s) \<and> relevant l m)
       \<or> (\<not> FINISHED_RE_test (or_empty (m_status m)) \<and> \<not> relevantLive m)")
  case True
  then have "custom_step K e f l m s = (s, [])"
    by (auto simp: custom_step_def Let_def)
  with assms have "s' = s" "fx = []"
    by simp_all
  then show ?thesis using True by (rule skip)
next
  case False
  then have nt: "\<not> thrown s" and inr: "matchIdOf m \<in> set (sel s)" "relevant l m"
    and st: "FINISHED_RE_test (or_empty (m_status m)) \<or> relevantLive m"
    by auto
  let ?i = "matchIdOf m"
  show ?thesis
  proof (cases "FINISHED_RE_test (or_empty (m_status m))")
    case fin: True
    obtain s1 fx1 where a: "final_scorecard f ?i s = (s1, fx1)"
      by (cases "final_scorecard f ?i s")
    let ?s1 = "s1\<lparr> cfg := (cfg s1)\<lparr> selected_match_ids := Some (removeAll ?i (sel s1)) \<rparr>,
                   sel := removeAll ?i (sel s1) \<rparr>"
    obtain s2 fx2 where b: "saveData f ?s1 = (s2, fx2)"
      by (cases "saveData f ?s1")
    obtain s3 fx3 where d: "channel_send f (StoppedTracking ?i) s2 = (s3, fx3)"
      by (cases "channel_send f (StoppedTracking ?i) s2")
    from assms nt inr fin a b d have res: "s' = s3" "fx = fx1 @ fx2 @ fx3"
      by (simp_all add: custom_step_def Let_def)
    note fa = final_scorecard_frame [OF a] and fb = saveData_frame [OF b]
      and fd = channel_send_frame [OF d]
    have 1: "sel s' = removeAll ?i (sel s)"
      by (simp add: res fd fb fa)
    have 2: "cfg s' = (cfg s)\<lparr> selected_match_ids := Some (removeAll ?i (sel s)) \<rparr>"
      by (simp add: res fd fb fa)
    have 3: "lastPostedByMatch s' = lastPostedByMatch s"
      by (simp add: res fd fb fa)
    have c23: "cfg s2 = cfg s'" "cfg s3 = cfg s'"
      by (simp_all add: res fd)
    have 4: "fx = fx1 @ (fx2 @ fx3)"
      by (simp add: res)
    have 5: "prefix (fx2 @ fx3) [Save (cfg s'), Send (StoppedTracking ?i)]"
    proof (cases "thrown s2")
      case True
      with fb fd have "fx2 = []" "fx3 = []" by auto
      then show ?thesis by simp
    next
      case False
      with fb have "fx2 = [Save (cfg s')]" by (simp add: c23)
      with fd(8) show ?thesis by auto
    qed
    have 6: "fx2 @ fx3 = [Save (cfg s'), Send (StoppedTracking ?i)]" if "\<not> thrown s'"
    proof -
      from that have n3: "\<not> thrown s3" by (simp add: res)
      with fd have n2: "\<not> thrown s2" by auto
      from n3 fd have "fx3 = [Send (StoppedTracking ?i)]" by simp
      moreover from n2 fb have "fx2 = [Save (cfg s')]" by (simp add: c23)
      ultimately show ?thesis by simp
    qed
    have 7: "\<not> thrown s'" if r: "reliable f"
    proof -
      from fa nt have "\<not> thrown ?s1" by simp
      with fb(9) [OF r] have "\<not> thrown s2" by simp
      from channel_send_reliable [OF d r _ this] show ?thesis by (simp add: res)
    qed
    from nt inr fin 1 2 3 4 fa(6) fa(7) [OF nt] 5 6 7 show ?thesis
      by (rule finished)
  next
    case nf: False
    with st have lv: "relevantLive m" by simp
    show ?thesis
    proof (cases "last_posted (lastPostedByMatch s) ?i")
      case None
      with assms nt inr nf lv have "s' = s\<lparr> anyLive := True \<rparr>" "fx = []"
        by (simp_all add: custom_step_def Let_def)
      with nt inr nf lv None show ?thesis
        by (intro quiet) simp_all
    next
      case (Some t)
      show ?thesis
      proof (cases "now e - t \<ge> of_int (POLL_SECONDS K) - 5")
        case False
        with assms nt inr nf lv Some have "s' = s\<lparr> anyLive := True \<rparr>" "fx = []"
          by (simp_all add: custom_step_def Let_def)
        with nt inr nf lv Some False show ?thesis
          by (intro quiet) simp_all
      next
        case True
        show ?thesis
        proof (cases "f_completes f (attempts s) (Send (LiveUpdate (l_pingStr l) m))")
          case ok: True
          with assms nt inr nf lv Some True show ?thesis
            by (intro post [of t])
               (simp_all add: custom_step_def Let_def channel_send_def attempt_def)
        next
          case no: False
          with assms nt inr nf lv Some True
          have "s' = s\<lparr> anyLive := True, attempts := Suc (attempts s), thrown := True \<rparr>"
            "fx = []"
            by (simp_all add: custom_step_def Let_def channel_send_def attempt_def)
          with nt inr nf lv no show ?thesis
            by (intro quiet) simp_all
        qed
      qed
    qed
  qed
qed

lemma custom_step_thrown: "custom_step K e f l m s = (s', fx) \<Longrightarrow> thrown s \<Longrightarrow> s' = s \<and> fx = []"
  by (simp add: custom_step_def)

lemma custom_step_sel: "custom_step K e f l m s = (s', fx) \<Longrightarrow> set (sel s') \<subseteq> set (sel s)"
  by (erule custom_step_cases) auto

lemma tracked_ids_simps [simp]:
  "tracked_ids [] = []" "tracked_ids (Save c # fx) = tracked_ids fx"
  "tracked_ids (Send (FinalScorecard i sc) # fx) = i # tracked_ids fx"
  "tracked_ids (Send (StoppedTracking i) # fx) = i # tracked_ids fx"
  "tracked_ids (Send (LiveUpdate p m) # fx) = matchIdOf m # tracked_ids fx"
  "tracked_ids (Send NoFallbackMatches # fx) = tracked_ids fx"
  "tracked_ids (Send NoDailyMatches # fx) = tracked_ids fx"
  "tracked_ids (Send (SummaryBatch p ms) # fx) = tracked_ids fx"
  "tracked_ids (Send (TomorrowFixtures ms) # fx) = tracked_ids fx"
  by (simp_all add: tracked_ids_def)

lemma tracked_ids_prefix: "prefix a b \<Longrightarrow> set (tracked_ids a) \<subseteq> set (tracked_ids b)"
  by (auto simp: prefix_def)

lemma live_ids_simps [simp]:
  "live_ids [] = []" "live_ids (Save c # fx) = live_ids fx"
  "live_ids (Send (FinalScorecard i sc) # fx) = live_ids fx"
  "live_ids (Send (StoppedTracking i) # fx) = live_ids fx"
  "live_ids (Send (LiveUpdate p m) # fx) = matchIdOf m # live_ids fx"
  "live_ids (Send NoFallbackMatches # fx) = live_ids fx"
  "live_ids (Send NoDailyMatches # fx) = live_ids fx"
  "live_ids (Send (SummaryBatch p ms) # fx) = live_ids fx"
  "live_ids (Send (TomorrowFixtures ms) # fx) = live_ids fx"
  by (simp_all add: live_ids_def)

lemma live_ids_prefix: "prefix a b \<Longrightarrow> set (live_ids a) \<subseteq> set (live_ids b)"
  by (auto simp: prefix_def)

lemma custom_step_tracked:
  assumes "custom_step K e f l m s = (s', fx)"
  shows "set (tracked_ids fx) \<subseteq> set (sel s)"
  using assms
proof (cases rule: custom_step_cases)
  case (finished fx1 rest)
  from tracked_ids_prefix [OF finished(11)]
  have "set (tracked_ids rest) \<subseteq> {matchIdOf m}" by simp
  moreover from finished(9) have "set (tracked_ids fx1) \<subseteq> {matchIdOf m}" by auto
  ultimately show ?thesis
    using finished(2) by (auto simp: finished(8))
qed auto

lemma custom_step_live:
  assumes "custom_step K e f l m s = (s', fx)" "live_ids fx \<noteq> []"
  shows "live_ids fx = [matchIdOf m]
    \<and> lastPostedByMatch s' = (lastPostedByMatch s)(matchIdOf m \<mapsto> now e)
    \<and> (\<exists>t. last_posted (lastPostedByMatch s) (matchIdOf m) = Some t
            \<and> now e - t \<ge> of_int (POLL_SECONDS K) - 5)"
  using assms
proof (cases rule: custom_step_cases)
  case (finished fx1 rest)
  from live_ids_prefix [OF finished(11)] have "live_ids rest = []" by simp
  moreover from finished(9) have "live_ids fx1 = []" by auto
  ultimately show ?thesis
    using assms(2) by (simp add: finished(8))
qed auto

lemma custom_step_quiet:
  assumes "custom_step K e f l m s = (s', fx)" "live_ids fx = []"
  shows "lastPostedByMatch s' = lastPostedByMatch s"
  using assms by (cases rule: custom_step_cases) auto

lemma custom_step_other:
  assumes "custom_step K e f l m s = (s', fx)" "matchIdOf m \<noteq> i"
  shows "(i \<in> set (sel s') \<longleftrightarrow> i \<in> set (sel s))
         \<and> lastPostedByMatch s' i = lastPostedByMatch s i"
  using assms by (cases rule: custom_step_cases) auto

lemma custom_step_selected:
  assumes "custom_step K e f l m s = (s', fx)"
      "set (or_nil (selected_match_ids (cfg s))) = set (sel s)"
  shows "set (or_nil (selected_match_ids (cfg s'))) = set (sel s')"
  using assms by (cases rule: custom_step_cases) (auto simp: or_nil_def)

text \<open>A step leaves every field of the entry but the selection as it is.\<close>

lemma cfg_self: "\<exists>x. c = c\<lparr> selected_match_ids := x \<rparr>"
  by (rule exI [of _ "selected_match_ids c"]) simp

lemma custom_step_cfg:
  assumes "custom_step K e f l m s = (s', fx)"
  shows "\<exists>x. cfg s' = (cfg s)\<lparr> selected_match_ids := x \<rparr>"
  using assms by (cases rule: custom_step_cases) (auto simp: cfg_self)

lemma custom_step_mono:
  assumes "custom_step K e f l m s = (s', fx)" "thrown s"
  shows "thrown s'"
  using assms by (simp add: custom_step_def)

lemma custom_step_reliable:
  assumes "custom_step K e f l m s = (s', fx)" "reliable f" "\<not> thrown s"
  shows "\<not> thrown s'"
  using assms(1)
proof (cases rule: custom_step_cases)
  case quiet
  from assms(2) have "f_completes f (attempts s) (Send (LiveUpdate (l_pingStr l) m))"
    by (rule reliable_completes) simp
  with quiet(10) show ?thesis by blast
qed (use assms in auto)

text \<open>What a step that does not throw has saved is the entry it ends with, if it has changed
  the entry.\<close>

lemma custom_step_saved:
  assumes "custom_step K e f l m s = (s', fx)" "\<not> thrown s'"
  shows "(cfg s' = cfg s \<and> last_saved fx = None) \<or> last_saved fx = Some (cfg s')"
  using assms(1)
proof (cases rule: custom_step_cases)
  case (finished fx1 rest)
  from finished(12) [OF assms(2)] have "last_saved fx = Some (cfg s')"
    by (simp add: finished(8) last_saved_def)
  then show ?thesis ..
qed auto

subsection \<open>The custom loop\<close>

lemma custom_loop_induct [consumes 1, case_names Nil Step]:
  assumes "custom_loop K e f l ms s = (s', fx)"
    and "\<And>s. P [] s s []"
    and "\<And>m ms s s1 fx1 s2 fx2.
           custom_step K e f l m s = (s1, fx1) \<Longrightarrow> custom_loop K e f l ms s1 = (s2, fx2)
           \<Longrightarrow> P ms s1 s2 fx2 \<Longrightarrow> P (m # ms) s s2 (fx1 @ fx2)"
  shows "P ms s s' fx"
  using assms(1)
proof (induction ms arbitrary: s s' fx)
  case Nil
  then show ?case using assms(2) by simp
next
  case (Cons m ms)
  obtain s1 fx1 where st: "custom_step K e f l m s = (s1, fx1)"
    by (cases "custom_step K e f l m s")
  obtain s2 fx2 where lp: "custom_loop K e f l ms s1 = (s2, fx2)"
    by (cases "custom_loop K e f l ms s1")
  from Cons.prems st lp have eq: "s' = s2" "fx = fx1 @ fx2"
    by simp_all
  from assms(3) [OF st lp Cons.IH [OF lp]] show ?case
    by (simp add: eq)
qed

lemma custom_loop_mono:
  "custom_loop K e f l ms s = (s', fx) \<Longrightarrow> thrown s \<Longrightarrow> thrown s'"
proof (induction rule: custom_loop_induct)
  case (Nil s)
  then show ?case by simp
next
  case (Step m ms s s1 fx1 s2 fx2)
  from Step.IH [OF custom_step_mono [OF Step(1) Step.prems]] show ?case .
qed

lemma custom_loop_reliable:
  "custom_loop K e f l ms s = (s', fx) \<Longrightarrow> reliable f \<Longrightarrow> \<not> thrown s \<Longrightarrow> \<not> thrown s'"
proof (induction rule: custom_loop_induct)
  case (Nil s)
  then show ?case by simp
next
  case (Step m ms s s1 fx1 s2 fx2)
  from Step.IH [OF Step.prems(1) custom_step_reliable [OF Step(1) Step.prems]] show ?case .
qed

lemma custom_loop_sel:
  "custom_loop K e f l ms s = (s', fx) \<Longrightarrow> set (sel s') \<subseteq> set (sel s)"
proof (induction rule: custom_loop_induct)
  case (Nil s)
  show ?case by simp
next
  case (Step m ms s s1 fx1 s2 fx2)
  with custom_step_sel [OF Step(1)] show ?case by blast
qed

lemma custom_loop_tracked:
  "custom_loop K e f l ms s = (s', fx) \<Longrightarrow> set (tracked_ids fx) \<subseteq> set (sel s)"
proof (induction rule: custom_loop_induct)
  case (Nil s)
  show ?case by simp
next
  case (Step m ms s s1 fx1 s2 fx2)
  with custom_step_sel [OF Step(1)] custom_step_tracked [OF Step(1)] show ?case
    by auto
qed

lemma custom_loop_selected:
  "custom_loop K e f l ms s = (s', fx)
   \<Longrightarrow> set (or_nil (selected_match_ids (cfg s))) = set (sel s)
   \<Longrightarrow> set (or_nil (selected_match_ids (cfg s'))) = set (sel s')"
proof (induction rule: custom_loop_induct)
  case (Nil s)
  then show ?case by simp
next
  case (Step m ms s s1 fx1 s2 fx2)
  with custom_step_selected [OF Step(1)] show ?case by blast
qed

lemma custom_loop_cfg:
  "custom_loop K e f l ms s = (s', fx)
   \<Longrightarrow> \<exists>x. cfg s' = (cfg s)\<lparr> selected_match_ids := x \<rparr>"
proof (induction rule: custom_loop_induct)
  case (Nil s)
  show ?case by (rule cfg_self)
next
  case (Step m ms s s1 fx1 s2 fx2)
  from custom_step_cfg [OF Step(1)] obtain x where x: "cfg s1 = (cfg s)\<lparr> selected_match_ids := x \<rparr>" ..
  from Step.IH obtain y where y: "cfg s2 = (cfg s1)\<lparr> selected_match_ids := y \<rparr>" ..
  have "cfg s2 = (cfg s)\<lparr> selected_match_ids := y \<rparr>"
    by (simp add: x y)
  then show ?case ..
qed

lemma custom_loop_saved:
  "custom_loop K e f l ms s = (s', fx) \<Longrightarrow> \<not> thrown s'
   \<Longrightarrow> (cfg s' = cfg s \<and> last_saved fx = None) \<or> last_saved fx = Some (cfg s')"
proof (induction rule: custom_loop_induct)
  case (Nil s)
  show ?case by simp
next
  case (Step m ms s s1 fx1 s2 fx2)
  from custom_loop_mono [OF Step(2)] Step.prems have "\<not> thrown s1" by blast
  from custom_step_saved [OF Step(1) this] Step.IH [OF Step.prems] show ?case
    by (auto simp: last_saved_append)
qed

lemma custom_loop_other:
  "custom_loop K e f l ms s = (s', fx) \<Longrightarrow> i \<notin> matchIdOf ` set ms
   \<Longrightarrow> (i \<in> set (sel s') \<longleftrightarrow> i \<in> set (sel s))
       \<and> lastPostedByMatch s' i = lastPostedByMatch s i"
proof (induction rule: custom_loop_induct)
  case (Nil s)
  show ?case by simp
next
  case (Step m ms s s1 fx1 s2 fx2)
  from Step.prems have "matchIdOf m \<noteq> i" "i \<notin> matchIdOf ` set ms"
    by auto
  with custom_step_other [OF Step(1)] Step.IH show ?case
    by simp
qed

text \<open>When the loop ends without an exception, a finished match of the feed that passes the
  filters is not selected after it. If it was selected before, the loop has sent the notice
  and, where the scorecard could be fetched and its message completes, the scorecard.\<close>

lemma custom_step_finished:
  assumes "custom_step K e f l m s = (s', fx)" "relevant l m"
    "FINISHED_RE_test (or_empty (m_status m))" "\<not> thrown s'"
  shows "matchIdOf m \<notin> set (sel s')
    \<and> (matchIdOf m \<in> set (sel s) \<longrightarrow> Send (StoppedTracking (matchIdOf m)) \<in> set fx)
    \<and> (matchIdOf m \<in> set (sel s) \<longrightarrow> f_scorecard f (matchIdOf m) = Inr sc
         \<longrightarrow> (\<forall>n. f_completes f n (Send (FinalScorecard (matchIdOf m) sc)))
         \<longrightarrow> Send (FinalScorecard (matchIdOf m) sc) \<in> set fx)"
  using assms(1)
proof (cases rule: custom_step_cases)
  case skip
  with assms show ?thesis by auto
next
  case (finished fx1 rest)
  from finished(12) [OF assms(4)] have "Send (StoppedTracking (matchIdOf m)) \<in> set fx"
    by (simp add: finished(8))
  moreover have "Send (FinalScorecard (matchIdOf m) sc) \<in> set fx"
    if "f_scorecard f (matchIdOf m) = Inr sc"
      "\<forall>n. f_completes f n (Send (FinalScorecard (matchIdOf m) sc))"
    using finished(10) [of sc] that by (simp add: finished(8))
  ultimately show ?thesis
    using finished(5) by simp
next
  case (post t)
  with assms show ?thesis by simp
next
  case quiet
  with assms show ?thesis by simp
qed

lemma custom_step_keeps:
  assumes "custom_step K e f l x s = (s', fx)" "i \<in> set (sel s)" "i \<notin> set (sel s')"
  shows "matchIdOf x = i \<and> relevant l x \<and> FINISHED_RE_test (or_empty (m_status x))"
  using assms by (cases rule: custom_step_cases) auto

lemma custom_loop_finished:
  "custom_loop K e f l ms s = (s', fx) \<Longrightarrow> \<not> thrown s' \<Longrightarrow> m \<in> set ms \<Longrightarrow> relevant l m
   \<Longrightarrow> FINISHED_RE_test (or_empty (m_status m))
   \<Longrightarrow> matchIdOf m \<notin> set (sel s')
       \<and> (matchIdOf m \<in> set (sel s) \<longrightarrow>
            Send (StoppedTracking (matchIdOf m)) \<in> set fx
            \<and> (\<forall>sc. f_scorecard f (matchIdOf m) = Inr sc
                    \<and> (\<forall>n. f_completes f n (Send (FinalScorecard (matchIdOf m) sc)))
                 \<longrightarrow> Send (FinalScorecard (matchIdOf m) sc) \<in> set fx))"
proof (induction rule: custom_loop_induct)
  case (Nil s)
  then show ?case by simp
next
  case (Step x ms s s1 fx1 s2 fx2)
  let ?i = "matchIdOf m"
  have sub: "set (sel s2) \<subseteq> set (sel s1)"
    using custom_loop_sel [OF Step(2)] .
  have nt: "\<not> thrown s1"
    using custom_loop_mono [OF Step(2)] Step.prems(1) by blast
  show ?case
  proof (cases "?i \<in> set (sel s)")
    case False
    with custom_step_sel [OF Step(1)] sub show ?thesis by blast
  next
    case sel0: True
    show ?thesis
    proof (cases "?i \<in> set (sel s1)")
      case True
      have "x \<noteq> m"
        using custom_step_finished [OF Step(1) _ _ nt] Step.prems True by blast
      with Step.prems have "m \<in> set ms" by simp
      from Step.IH [OF Step.prems(1) this Step.prems(3,4)] True show ?thesis
        by auto
    next
      case False
      from custom_step_keeps [OF Step(1) sel0 False]
      have x: "matchIdOf x = ?i" "relevant l x" "FINISHED_RE_test (or_empty (m_status x))"
        by auto
      from custom_step_finished [OF Step(1) x(2,3) nt] x(1) sel0
      have "Send (StoppedTracking ?i) \<in> set fx1"
        "\<forall>sc. f_scorecard f ?i = Inr sc
              \<and> (\<forall>n. f_completes f n (Send (FinalScorecard ?i sc)))
           \<longrightarrow> Send (FinalScorecard ?i sc) \<in> set fx1"
        by auto
      with False sub show ?thesis by auto
    qed
  qed
qed

subsection \<open>The three branches\<close>

lemma custom_branch_cases:
  assumes "custom_branch K e f l s = (s', fx)"
  obtains
    (idle) "s' = s" "fx = []"
      "thrown s \<or> \<not> (guard BranchA (l_mode l) (sel s)
          \<and> (case next_due (cfg s) of None \<Rightarrow> 0 | Some t \<Rightarrow> t) \<le> now e)"
  | (aborted) "\<not> thrown s" "guard BranchA (l_mode l) (sel s)"
      "(case next_due (cfg s) of None \<Rightarrow> 0 | Some t \<Rightarrow> t) \<le> now e"
      "custom_loop K e f l (f_current f) (s\<lparr> anyLive := False \<rparr>) = (s', fx)" "thrown s'"
  | (ran) s1 fx1 rest where "\<not> thrown s" "guard BranchA (l_mode l) (sel s)"
      "(case next_due (cfg s) of None \<Rightarrow> 0 | Some t \<Rightarrow> t) \<le> now e"
      "custom_loop K e f l (f_current f) (s\<lparr> anyLive := False \<rparr>) = (s1, fx1)" "\<not> thrown s1"
      "cfg s' = (cfg s1)\<lparr> next_due :=
                 Some (now e + of_int (if anyLive s1 then POLL_SECONDS K
                                       else IDLE_BACKOFF_SECONDS)) \<rparr>"
      "sel s' = sel s1" "lastPostedByMatch s' = lastPostedByMatch s1"
      "fx = fx1 @ rest" "rest = [] \<or> rest = [Save (cfg s')]"
      "\<not> thrown s' \<Longrightarrow> rest = [Save (cfg s')]" "reliable f \<Longrightarrow> \<not> thrown s'"
proof (cases "thrown s \<or> \<not> (guard BranchA (l_mode l) (sel s)
          \<and> (case next_due (cfg s) of None \<Rightarrow> 0 | Some t \<Rightarrow> t) \<le> now e)")
  case True
  then have "custom_branch K e f l s = (s, [])"
    by (auto simp: custom_branch_def Let_def)
  with assms have "s' = s" "fx = []"
    by simp_all
  then show ?thesis using True by (rule idle)
next
  case False
  then have h: "\<not> thrown s" "guard BranchA (l_mode l) (sel s)"
    "(case next_due (cfg s) of None \<Rightarrow> 0 | Some t \<Rightarrow> t) \<le> now e"
    by auto
  obtain s1 fx1 where lp: "custom_loop K e f l (f_current f) (s\<lparr> anyLive := False \<rparr>) = (s1, fx1)"
    by (cases "custom_loop K e f l (f_current f) (s\<lparr> anyLive := False \<rparr>)")
  show ?thesis
  proof (cases "thrown s1")
    case True
    with h lp assms have "s' = s1" "fx = fx1"
      by (simp_all add: custom_branch_def Let_def)
    with h lp True show ?thesis
      by (intro aborted) simp_all
  next
    case nt: False
    let ?c = "(cfg s1)\<lparr> next_due :=
                 Some (now e + of_int (if anyLive s1 then POLL_SECONDS K
                                       else IDLE_BACKOFF_SECONDS)) \<rparr>"
    obtain s2 fx2 where sv: "saveData f (s1\<lparr> cfg := ?c \<rparr>) = (s2, fx2)"
      by (cases "saveData f (s1\<lparr> cfg := ?c \<rparr>)")
    from h lp nt sv assms have res: "s' = s2" "fx = fx1 @ fx2"
      by (simp_all add: custom_branch_def Let_def)
    note fr = saveData_frame [OF sv]
    have 1: "cfg s' = ?c" "sel s' = sel s1" "lastPostedByMatch s' = lastPostedByMatch s1"
      by (simp_all add: res fr)
    have 2: "fx2 = [] \<or> fx2 = [Save (cfg s')]"
      using fr(8) by (simp add: res)
    have 3: "\<not> thrown s' \<Longrightarrow> fx2 = [Save (cfg s')]"
      using fr(7) by (simp add: res)
    have 4: "reliable f \<Longrightarrow> \<not> thrown s'"
      using fr(9) nt by (simp add: res)
    from h lp nt 1 res(2) 2 3 4 show ?thesis
      by (rule ran)
  qed
qed

lemma custom_branch_frame:
  assumes "custom_branch K e f l s = (s', fx)"
  shows "set (sel s') \<subseteq> set (sel s)"
    and "set (tracked_ids fx) \<subseteq> set (sel s)"
    and "set (or_nil (selected_match_ids (cfg s))) = set (sel s)
         \<Longrightarrow> set (or_nil (selected_match_ids (cfg s'))) = set (sel s')"
    and "fallback_summary (cfg s') = fallback_summary (cfg s)"
    and "next_summary (cfg s') = next_summary (cfg s)"
    and "\<not> thrown s' \<Longrightarrow> (s' = s \<and> fx = []) \<or> last_saved fx = Some (cfg s')"
    and "reliable f \<Longrightarrow> \<not> thrown s \<Longrightarrow> \<not> thrown s'"
proof -
  show "set (sel s') \<subseteq> set (sel s)"
    using assms
  proof (cases rule: custom_branch_cases)
    case aborted
    from custom_loop_sel [OF aborted(4)] show ?thesis by simp
  next
    case (ran s1 fx1 rest)
    from custom_loop_sel [OF ran(4)] show ?thesis by (simp add: ran(7))
  qed simp
  show "set (tracked_ids fx) \<subseteq> set (sel s)"
    using assms
  proof (cases rule: custom_branch_cases)
    case aborted
    from custom_loop_tracked [OF aborted(4)] show ?thesis by simp
  next
    case (ran s1 fx1 rest)
    from ran(10) have "tracked_ids rest = []" by auto
    with custom_loop_tracked [OF ran(4)] show ?thesis by (simp add: ran(9))
  qed simp
  show "set (or_nil (selected_match_ids (cfg s'))) = set (sel s')"
    if "set (or_nil (selected_match_ids (cfg s))) = set (sel s)"
    using assms
  proof (cases rule: custom_branch_cases)
    case idle
    with that show ?thesis by simp
  next
    case aborted
    from custom_loop_selected [OF aborted(4)] that show ?thesis by simp
  next
    case (ran s1 fx1 rest)
    from custom_loop_selected [OF ran(4)] that
    have "set (or_nil (selected_match_ids (cfg s1))) = set (sel s1)"
      by simp
    then show ?thesis by (simp add: ran(6,7))
  qed
  have frame: "\<exists>x y. cfg s' = (cfg s)\<lparr> selected_match_ids := x, next_due := y \<rparr>"
    using assms
  proof (cases rule: custom_branch_cases)
    case idle
    have "cfg s = (cfg s)\<lparr> selected_match_ids := selected_match_ids (cfg s),
                            next_due := next_due (cfg s) \<rparr>"
      by simp
    then show ?thesis unfolding idle(1) by blast
  next
    case aborted
    from custom_loop_cfg [OF aborted(4)] obtain x
      where "cfg s' = (cfg s)\<lparr> selected_match_ids := x \<rparr>"
      by auto
    then have "cfg s' = (cfg s)\<lparr> selected_match_ids := x, next_due := next_due (cfg s) \<rparr>"
      by simp
    then show ?thesis by blast
  next
    case (ran s1 fx1 rest)
    from custom_loop_cfg [OF ran(4)] obtain x
      where "cfg s1 = (cfg s)\<lparr> selected_match_ids := x \<rparr>"
      by auto
    with ran(6) show ?thesis by auto
  qed
  then obtain x y where c: "cfg s' = (cfg s)\<lparr> selected_match_ids := x, next_due := y \<rparr>"
    by blast
  show "fallback_summary (cfg s') = fallback_summary (cfg s)"
    by (simp add: c)
  show "next_summary (cfg s') = next_summary (cfg s)"
    by (simp add: c)
  show "(s' = s \<and> fx = []) \<or> last_saved fx = Some (cfg s')" if "\<not> thrown s'"
    using assms
  proof (cases rule: custom_branch_cases)
    case idle
    then show ?thesis by simp
  next
    case aborted
    with that show ?thesis by simp
  next
    case (ran s1 fx1 rest)
    from ran(11) [OF that] show ?thesis by (simp add: ran(9))
  qed
  show "\<not> thrown s'" if "reliable f" "\<not> thrown s"
    using assms
  proof (cases rule: custom_branch_cases)
    case idle
    with that show ?thesis by simp
  next
    case aborted
    from custom_loop_reliable [OF aborted(4) that(1)] that(2) aborted(5) show ?thesis
      by simp
  next
    case (ran s1 fx1 rest)
    from ran(12) [OF that(1)] show ?thesis .
  qed
qed

lemma custom_branch_thrown: "thrown s \<Longrightarrow> custom_branch K e f l s = (s, [])"
  by (simp add: custom_branch_def)

lemma fallback_branch_thrown: "thrown s \<Longrightarrow> fallback_branch e f l s = (s, [])"
  by (simp add: fallback_branch_def)

lemma daily_branch_thrown: "thrown s \<Longrightarrow> daily_branch e f l s = (s, [])"
  by (simp add: daily_branch_def)

text \<open>The messages of a summary name no tracked match and hold no save.\<close>

lemma summary_posts_cases:
  "summary_posts p none ms = [none] \<and> ms = []
   \<or> (ms \<noteq> [] \<and> summary_posts p none ms
         = SummaryBatch p (take 8 ms) # map (SummaryBatch None) (slices (drop 8 ms)))"
  by (cases "ms = []") (simp_all add: summary_posts_def slices.simps [of ms])

lemma tracked_ids_batches [simp]: "tracked_ids (map (Send \<circ> SummaryBatch p) bs) = []"
  by (induction bs) simp_all

lemma saved_batches [simp]: "saved (map Send ps) = []"
  by (induction ps) simp_all

lemma tracked_ids_summary_posts [simp]:
  "tracked_ids (map Send (summary_posts p NoFallbackMatches ms)) = []"
  "tracked_ids (map Send (summary_posts p NoDailyMatches ms)) = []"
  using summary_posts_cases [of p NoFallbackMatches ms] summary_posts_cases [of p NoDailyMatches ms]
  by auto

lemma summary_reliable [simp]:
  "\<forall>x \<in> set (summary_posts p NoFallbackMatches ms). \<not> is_final_scorecard (Send x)"
  "\<forall>x \<in> set (summary_posts p NoDailyMatches ms). \<not> is_final_scorecard (Send x)"
  using summary_posts_cases [of p NoFallbackMatches ms] summary_posts_cases [of p NoDailyMatches ms]
  by auto

text \<open>The messages of a due summary, followed by tomorrow's fixtures: a prefix of them is
  sent, all of them if and only if nothing is thrown.\<close>

lemma summary_sent:
  assumes a: "send_all f ps s = (s1, fx1)"
    and b: "sendTomorrowsInternationals f c s1 = (s2, fx2)"
  shows "cfg s2 = cfg s" "sel s2 = sel s" "lastPostedByMatch s2 = lastPostedByMatch s"
    "prefix (fx1 @ fx2) (map Send ps @ [Send (TomorrowFixtures
        (formatTomorrowList (f_tomorrow f)
           (Some (case gender_filters c of None \<Rightarrow> [''men'', ''women''] | Some gs \<Rightarrow> gs))
           (Some (or_nil (team_filters c)))))])"
    "\<not> thrown s2 \<Longrightarrow> fx1 = map Send ps"
    "\<not> thrown s2 \<Longrightarrow> fx2 = [Send (TomorrowFixtures
        (formatTomorrowList (f_tomorrow f)
           (Some (case gender_filters c of None \<Rightarrow> [''men'', ''women''] | Some gs \<Rightarrow> gs))
           (Some (or_nil (team_filters c)))))]"
    "prefix fx1 (map Send ps)" "saved (fx1 @ fx2) = []"
    "reliable f \<Longrightarrow> \<forall>p \<in> set ps. \<not> is_final_scorecard (Send p) \<Longrightarrow> \<not> thrown s
       \<Longrightarrow> \<not> thrown s2"
proof -
  let ?t = "TomorrowFixtures
        (formatTomorrowList (f_tomorrow f)
           (Some (case gender_filters c of None \<Rightarrow> [''men'', ''women''] | Some gs \<Rightarrow> gs))
           (Some (or_nil (team_filters c))))"
  from b have b': "channel_send f ?t s1 = (s2, fx2)"
    by (simp add: sendTomorrowsInternationals_def)
  note fa = send_all_frame [OF a] and fb = channel_send_frame [OF b']
  show "cfg s2 = cfg s" "sel s2 = sel s" "lastPostedByMatch s2 = lastPostedByMatch s"
    using fa fb by simp_all
  show 1: "\<not> thrown s2 \<Longrightarrow> fx1 = map Send ps"
    using fa fb(5) by blast
  show 2: "\<not> thrown s2 \<Longrightarrow> fx2 = [Send ?t]"
    by (rule fb(7))
  show 3: "prefix fx1 (map Send ps)"
    using fa by simp
  show 4: "prefix (fx1 @ fx2) (map Send ps @ [Send ?t])"
  proof (cases "thrown s1")
    case True
    with fb have "fx2 = []" by simp
    with 3 show ?thesis by (simp add: prefix_prefix)
  next
    case False
    with fa have "fx1 = map Send ps" by simp
    with fb(8) show ?thesis by auto
  qed
  from prefixE [OF 4] obtain r where "map Send ps @ [Send ?t] = (fx1 @ fx2) @ r" .
  then have "saved (map Send ps @ [Send ?t]) = saved (fx1 @ fx2) @ saved r"
    by (simp only: saved_append)
  then show "saved (fx1 @ fx2) = []"
    by simp
  show "\<not> thrown s2"
    if "reliable f" "\<forall>p \<in> set ps. \<not> is_final_scorecard (Send p)" "\<not> thrown s"
    using channel_send_reliable [OF b' that(1) _ send_all_reliable [OF a that]] by simp
qed

lemma prefix_tracked_none: "prefix fx ps \<Longrightarrow> tracked_ids ps = [] \<Longrightarrow> tracked_ids fx = []"
  using tracked_ids_prefix [of fx ps] by simp

lemma fallback_branch_cases:
  assumes "fallback_branch e f l s = (s', fx)"
  obtains
    (idle) "s' = s" "fx = []"
      "thrown s \<or> \<not> guard BranchB (l_mode l) (sel s)
       \<or> (\<exists>T. fallback_summary (cfg s) = Some T \<and> T \<noteq> 0 \<and> \<not> of_int T \<le> now e)"
  | (init) "\<not> thrown s" "guard BranchB (l_mode l) (sel s)" "unset (fallback_summary (cfg s))"
      "cfg s' = (cfg s)\<lparr> fallback_summary := hhmmToNextDate e (l_dailyHHMM l) \<rparr>"
      "sel s' = sel s" "lastPostedByMatch s' = lastPostedByMatch s"
      "fx = [] \<or> fx = [Save (cfg s')]" "\<not> thrown s' \<Longrightarrow> fx = [Save (cfg s')]"
      "reliable f \<Longrightarrow> \<not> thrown s'"
  | (aborted) T where "\<not> thrown s" "guard BranchB (l_mode l) (sel s)"
      "fallback_summary (cfg s) = Some T" "T \<noteq> 0" "of_int T \<le> now e"
      "thrown s'" "cfg s' = cfg s" "sel s' = sel s"
      "lastPostedByMatch s' = lastPostedByMatch s" "\<not> reliable f"
      "tracked_ids fx = []" "saved fx = []"
      "\<exists>r. prefix (fx @ r) (map Send (summary_posts (l_pingStr l) NoFallbackMatches
         (filter (fallback_ok e l) (byId_values (f_todays f @ f_current f)))))"
  | (fire) T t rest where "\<not> thrown s" "guard BranchB (l_mode l) (sel s)"
      "fallback_summary (cfg s) = Some T" "T \<noteq> 0" "of_int T \<le> now e"
      "cfg s' = (cfg s)\<lparr> fallback_summary := next_day T \<rparr>" "sel s' = sel s"
      "lastPostedByMatch s' = lastPostedByMatch s"
      "fx = map Send (summary_posts (l_pingStr l) NoFallbackMatches
                (filter (fallback_ok e l) (byId_values (f_todays f @ f_current f))))
            @ [Send (TomorrowFixtures t)] @ rest"
      "rest = [] \<or> rest = [Save (cfg s')]" "\<not> thrown s' \<Longrightarrow> rest = [Save (cfg s')]"
      "reliable f \<Longrightarrow> \<not> thrown s'"
proof (cases "\<not> thrown s \<and> guard BranchB (l_mode l) (sel s)")
  case False
  then have "fallback_branch e f l s = (s, [])"
    by (auto simp: fallback_branch_def)
  with assms have "s' = s" "fx = []"
    by simp_all
  then show ?thesis using False by (intro idle) auto
next
  case True
  then have g: "\<not> thrown s" "guard BranchB (l_mode l) (sel s)"
    by simp_all
  show ?thesis
  proof (cases "unset (fallback_summary (cfg s))")
    case u: True
    let ?s = "s\<lparr> cfg := (cfg s)\<lparr> fallback_summary := hhmmToNextDate e (l_dailyHHMM l) \<rparr> \<rparr>"
    from g u assms have sv: "saveData f ?s = (s', fx)"
      by (auto simp: fallback_branch_def unset_def split: option.splits)
    note fr = saveData_frame [OF sv]
    have 1: "cfg s' = (cfg s)\<lparr> fallback_summary := hhmmToNextDate e (l_dailyHHMM l) \<rparr>"
      "sel s' = sel s" "lastPostedByMatch s' = lastPostedByMatch s"
      by (simp_all add: fr)
    have 2: "reliable f \<Longrightarrow> \<not> thrown s'"
      using fr(9) g(1) by simp
    from g u 1 fr(8) fr(7) 2 show ?thesis
      by (rule init)
  next
    case False
    then obtain T where T: "fallback_summary (cfg s) = Some T" "T \<noteq> 0"
      by (auto simp: unset_def split: option.splits)
    show ?thesis
    proof (cases "of_int T \<le> now e")
      case False
      with g T have "fallback_branch e f l s = (s, [])"
        by (simp add: fallback_branch_def unset_def)
      with assms have "s' = s" "fx = []"
        by simp_all
      then show ?thesis using T False by (intro idle) auto
    next
      case due: True
      let ?ps = "summary_posts (l_pingStr l) NoFallbackMatches
                   (filter (fallback_ok e l) (byId_values (f_todays f @ f_current f)))"
      obtain s1 fx1 where a: "send_all f ?ps s = (s1, fx1)"
        by (cases "send_all f ?ps s")
      obtain s2 fx2 where b: "sendTomorrowsInternationals f (cfg s1) s1 = (s2, fx2)"
        by (cases "sendTomorrowsInternationals f (cfg s1) s1")
      note ss = summary_sent [OF a b]
      show ?thesis
      proof (cases "thrown s2")
        case True
        with g T due a b assms have res: "s' = s2" "fx = fx1 @ fx2"
          by (simp_all add: fallback_branch_def unset_def Let_def)
        have nr: "\<not> reliable f"
          using ss(9) g(1) True by auto
        have tr: "tracked_ids fx = []"
          using prefix_tracked_none [OF ss(4)] by (simp add: res)
        have "fx2 = []"
          using b True by (auto simp: sendTomorrowsInternationals_def dest: channel_send_frame(6))
        with ss(7) have "\<exists>r. prefix (fx @ r) (map Send ?ps)"
          by (intro exI [of _ "[]"]) (simp add: res)
        with g T due True ss(1,2,3) nr tr ss(8) show ?thesis
          by (intro aborted [of T]) (simp_all add: res)
      next
        case nt: False
        let ?c = "(cfg s2)\<lparr> fallback_summary := next_day T \<rparr>"
        obtain s3 fx3 where sv: "saveData f (s2\<lparr> cfg := ?c \<rparr>) = (s3, fx3)"
          by (cases "saveData f (s2\<lparr> cfg := ?c \<rparr>)")
        from g T due a b nt sv assms have res: "s' = s3" "fx = fx1 @ fx2 @ fx3"
          by (simp_all add: fallback_branch_def unset_def Let_def)
        note fr = saveData_frame [OF sv]
        have 1: "cfg s' = (cfg s)\<lparr> fallback_summary := next_day T \<rparr>" "sel s' = sel s"
          "lastPostedByMatch s' = lastPostedByMatch s"
          by (simp_all add: res fr ss)
        have 2: "fx = map Send ?ps @ [Send (TomorrowFixtures
            (formatTomorrowList (f_tomorrow f)
               (Some (case gender_filters (cfg s1) of None \<Rightarrow> [''men'', ''women'']
                      | Some gs \<Rightarrow> gs))
               (Some (or_nil (team_filters (cfg s1))))))] @ fx3"
          using ss(5,6) nt by (simp add: res)
        have 3: "fx3 = [] \<or> fx3 = [Save (cfg s')]"
          using fr(8) by (simp add: res)
        have 4: "\<not> thrown s' \<Longrightarrow> fx3 = [Save (cfg s')]"
          using fr(7) by (simp add: res)
        have 5: "reliable f \<Longrightarrow> \<not> thrown s'"
          using fr(9) nt by (simp add: res)
        from g T due 1 2 3 4 5 show ?thesis
          by (rule fire)
      qed
    qed
  qed
qed

lemma daily_branch_cases:
  assumes "daily_branch e f l s = (s', fx)"
  obtains
    (idle) "s' = s" "fx = []"
      "thrown s \<or> \<not> guard BranchC (l_mode l) (sel s)
       \<or> (\<exists>T. next_summary (cfg s) = Some T \<and> T \<noteq> 0 \<and> \<not> of_int T \<le> now e)"
  | (init) "\<not> thrown s" "guard BranchC (l_mode l) (sel s)" "unset (next_summary (cfg s))"
      "cfg s' = (cfg s)\<lparr> next_summary := hhmmToNextDate e (l_dailyHHMM l) \<rparr>"
      "sel s' = sel s" "lastPostedByMatch s' = lastPostedByMatch s"
      "fx = [] \<or> fx = [Save (cfg s')]" "\<not> thrown s' \<Longrightarrow> fx = [Save (cfg s')]"
      "reliable f \<Longrightarrow> \<not> thrown s'"
  | (aborted) T where "\<not> thrown s" "guard BranchC (l_mode l) (sel s)"
      "next_summary (cfg s) = Some T" "T \<noteq> 0" "of_int T \<le> now e"
      "thrown s'" "cfg s' = cfg s" "sel s' = sel s"
      "lastPostedByMatch s' = lastPostedByMatch s" "\<not> reliable f"
      "tracked_ids fx = []" "saved fx = []"
      "\<exists>r. prefix (fx @ r) (map Send (summary_posts (l_pingStr l) NoDailyMatches
         (filter (daily_ok e l) (byId_values (f_todays f @ f_current f)))))"
  | (fire) T t rest where "\<not> thrown s" "guard BranchC (l_mode l) (sel s)"
      "next_summary (cfg s) = Some T" "T \<noteq> 0" "of_int T \<le> now e"
      "cfg s' = (cfg s)\<lparr> next_summary := next_day T \<rparr>" "sel s' = sel s"
      "lastPostedByMatch s' = lastPostedByMatch s"
      "fx = map Send (summary_posts (l_pingStr l) NoDailyMatches
                (filter (daily_ok e l) (byId_values (f_todays f @ f_current f))))
            @ [Send (TomorrowFixtures t)] @ rest"
      "rest = [] \<or> rest = [Save (cfg s')]" "\<not> thrown s' \<Longrightarrow> rest = [Save (cfg s')]"
      "reliable f \<Longrightarrow> \<not> thrown s'"
proof (cases "\<not> thrown s \<and> guard BranchC (l_mode l) (sel s)")
  case False
  then have "daily_branch e f l s = (s, [])"
    by (auto simp: daily_branch_def)
  with assms have "s' = s" "fx = []"
    by simp_all
  then show ?thesis using False by (intro idle) auto
next
  case True
  then have g: "\<not> thrown s" "guard BranchC (l_mode l) (sel s)"
    by simp_all
  show ?thesis
  proof (cases "unset (next_summary (cfg s))")
    case u: True
    let ?s = "s\<lparr> cfg := (cfg s)\<lparr> next_summary := hhmmToNextDate e (l_dailyHHMM l) \<rparr> \<rparr>"
    from g u assms have sv: "saveData f ?s = (s', fx)"
      by (auto simp: daily_branch_def unset_def split: option.splits)
    note fr = saveData_frame [OF sv]
    have 1: "cfg s' = (cfg s)\<lparr> next_summary := hhmmToNextDate e (l_dailyHHMM l) \<rparr>"
      "sel s' = sel s" "lastPostedByMatch s' = lastPostedByMatch s"
      by (simp_all add: fr)
    have 2: "reliable f \<Longrightarrow> \<not> thrown s'"
      using fr(9) g(1) by simp
    from g u 1 fr(8) fr(7) 2 show ?thesis
      by (rule init)
  next
    case False
    then obtain T where T: "next_summary (cfg s) = Some T" "T \<noteq> 0"
      by (auto simp: unset_def split: option.splits)
    show ?thesis
    proof (cases "of_int T \<le> now e")
      case False
      with g T have "daily_branch e f l s = (s, [])"
        by (simp add: daily_branch_def unset_def)
      with assms have "s' = s" "fx = []"
        by simp_all
      then show ?thesis using T False by (intro idle) auto
    next
      case due: True
      let ?ps = "summary_posts (l_pingStr l) NoDailyMatches
                   (filter (daily_ok e l) (byId_values (f_todays f @ f_current f)))"
      obtain s1 fx1 where a: "send_all f ?ps s = (s1, fx1)"
        by (cases "send_all f ?ps s")
      obtain s2 fx2 where b: "sendTomorrowsInternationals f (cfg s1) s1 = (s2, fx2)"
        by (cases "sendTomorrowsInternationals f (cfg s1) s1")
      note ss = summary_sent [OF a b]
      show ?thesis
      proof (cases "thrown s2")
        case True
        with g T due a b assms have res: "s' = s2" "fx = fx1 @ fx2"
          by (simp_all add: daily_branch_def unset_def Let_def)
        have nr: "\<not> reliable f"
          using ss(9) g(1) True by auto
        have tr: "tracked_ids fx = []"
          using prefix_tracked_none [OF ss(4)] by (simp add: res)
        have "fx2 = []"
          using b True by (auto simp: sendTomorrowsInternationals_def dest: channel_send_frame(6))
        with ss(7) have "\<exists>r. prefix (fx @ r) (map Send ?ps)"
          by (intro exI [of _ "[]"]) (simp add: res)
        with g T due True ss(1,2,3) nr tr ss(8) show ?thesis
          by (intro aborted [of T]) (simp_all add: res)
      next
        case nt: False
        let ?c = "(cfg s2)\<lparr> next_summary := next_day T \<rparr>"
        obtain s3 fx3 where sv: "saveData f (s2\<lparr> cfg := ?c \<rparr>) = (s3, fx3)"
          by (cases "saveData f (s2\<lparr> cfg := ?c \<rparr>)")
        from g T due a b nt sv assms have res: "s' = s3" "fx = fx1 @ fx2 @ fx3"
          by (simp_all add: daily_branch_def unset_def Let_def)
        note fr = saveData_frame [OF sv]
        have 1: "cfg s' = (cfg s)\<lparr> next_summary := next_day T \<rparr>" "sel s' = sel s"
          "lastPostedByMatch s' = lastPostedByMatch s"
          by (simp_all add: res fr ss)
        have 2: "fx = map Send ?ps @ [Send (TomorrowFixtures
            (formatTomorrowList (f_tomorrow f)
               (Some (case gender_filters (cfg s1) of None \<Rightarrow> [''men'', ''women'']
                      | Some gs \<Rightarrow> gs))
               (Some (or_nil (team_filters (cfg s1))))))] @ fx3"
          using ss(5,6) nt by (simp add: res)
        have 3: "fx3 = [] \<or> fx3 = [Save (cfg s')]"
          using fr(8) by (simp add: res)
        have 4: "\<not> thrown s' \<Longrightarrow> fx3 = [Save (cfg s')]"
          using fr(7) by (simp add: res)
        have 5: "reliable f \<Longrightarrow> \<not> thrown s'"
          using fr(9) nt by (simp add: res)
        from g T due 1 2 3 4 5 show ?thesis
          by (rule fire)
      qed
    qed
  qed
qed

lemma fallback_branch_frame:
  assumes "fallback_branch e f l s = (s', fx)"
  shows "sel s' = sel s \<and> lastPostedByMatch s' = lastPostedByMatch s
         \<and> selected_match_ids (cfg s') = selected_match_ids (cfg s)
         \<and> next_summary (cfg s') = next_summary (cfg s)
         \<and> tracked_ids fx = []
         \<and> (\<not> thrown s' \<longrightarrow> (s' = s \<and> fx = []) \<or> last_saved fx = Some (cfg s'))
         \<and> (reliable f \<longrightarrow> \<not> thrown s \<longrightarrow> \<not> thrown s')"
  using assms
proof (cases rule: fallback_branch_cases)
  case idle
  then show ?thesis by simp
next
  case init
  from init(7) have "tracked_ids fx = []" by auto
  with init show ?thesis by auto
next
  case (aborted T)
  then show ?thesis by simp
next
  case (fire T t rest)
  from fire(10) have "tracked_ids rest = []" by auto
  moreover have "last_saved fx = Some (cfg s')" if "\<not> thrown s'"
    using fire(11) [OF that] by (simp add: fire(9) last_saved_def)
  ultimately show ?thesis
    using fire by simp
qed

lemma daily_branch_frame:
  assumes "daily_branch e f l s = (s', fx)"
  shows "sel s' = sel s \<and> lastPostedByMatch s' = lastPostedByMatch s
         \<and> selected_match_ids (cfg s') = selected_match_ids (cfg s)
         \<and> fallback_summary (cfg s') = fallback_summary (cfg s)
         \<and> tracked_ids fx = []
         \<and> (\<not> thrown s' \<longrightarrow> (s' = s \<and> fx = []) \<or> last_saved fx = Some (cfg s'))
         \<and> (reliable f \<longrightarrow> \<not> thrown s \<longrightarrow> \<not> thrown s')"
  using assms
proof (cases rule: daily_branch_cases)
  case idle
  then show ?thesis by simp
next
  case init
  from init(7) have "tracked_ids fx = []" by auto
  with init show ?thesis by auto
next
  case (aborted T)
  then show ?thesis by simp
next
  case (fire T t rest)
  from fire(10) have "tracked_ids rest = []" by auto
  moreover have "last_saved fx = Some (cfg s')" if "\<not> thrown s'"
    using fire(11) [OF that] by (simp add: fire(9) last_saved_def)
  ultimately show ?thesis
    using fire by simp
qed

subsection \<open>A tenant's turn\<close>

lemma set_new_Set [simp]: "set (new_Set xs) = set xs"
  by (simp add: new_Set_def)

lemma new_Set_Nil [simp]: "new_Set xs = [] \<longleftrightarrow> xs = []"
  by (simp add: new_Set_def)

lemma start_turn_simps [simp]:
  "cfg (start_turn c lp) = c" "sel (start_turn c lp) = new_Set (or_nil (selected_match_ids c))"
  "lastPostedByMatch (start_turn c lp) = lp" "\<not> thrown (start_turn c lp)"
  by (simp_all add: start_turn_def)

lemma tick_guild_disabled: "\<not> enabled e c \<Longrightarrow> tick_guild K e f c lp = (c, lp, [])"
  by (simp add: tick_guild_def)

lemma tick_guild_enabled:
  assumes "enabled e c" "tick_guild K e f c lp = (c', lp', fx)"
  obtains s1 fx1 s2 fx2 s3 fx3 where
    "custom_branch K e f (locals_of K c) (start_turn c lp) = (s1, fx1)"
    "fallback_branch e f (locals_of K c) s1 = (s2, fx2)"
    "daily_branch e f (locals_of K c) s2 = (s3, fx3)"
    "c' = cfg s3" "lp' = lastPostedByMatch s3" "fx = fx1 @ fx2 @ fx3"
proof -
  obtain s1 fx1 where a: "custom_branch K e f (locals_of K c) (start_turn c lp) = (s1, fx1)"
    by (cases "custom_branch K e f (locals_of K c) (start_turn c lp)")
  obtain s2 fx2 where b: "fallback_branch e f (locals_of K c) s1 = (s2, fx2)"
    by (cases "fallback_branch e f (locals_of K c) s1")
  obtain s3 fx3 where d: "daily_branch e f (locals_of K c) s2 = (s3, fx3)"
    by (cases "daily_branch e f (locals_of K c) s2")
  from assms a b d have "c' = cfg s3" "lp' = lastPostedByMatch s3" "fx = fx1 @ fx2 @ fx3"
    by (simp_all add: tick_guild_def Let_def)
  with a b d show ?thesis by (rule that)
qed

text \<open>The posts of the custom branch are about selected matches only, and a turn selects no
  match.\<close>

lemma tick_guild_tracked:
  assumes "tick_guild K e f c lp = (c', lp', fx)"
  shows "set (tracked_ids fx) \<subseteq> set (or_nil (selected_match_ids c))"
    and "set (or_nil (selected_match_ids c')) \<subseteq> set (or_nil (selected_match_ids c))"
proof -
  have "set (tracked_ids fx) \<subseteq> set (or_nil (selected_match_ids c))
      \<and> set (or_nil (selected_match_ids c')) \<subseteq> set (or_nil (selected_match_ids c))"
  proof (cases "enabled e c")
    case False
    with assms show ?thesis
      by (simp add: tick_guild_disabled)
  next
    case True
    from True assms show ?thesis
    proof (rule tick_guild_enabled)
      fix s1 fx1 s2 fx2 s3 fx3
      assume a: "custom_branch K e f (locals_of K c) (start_turn c lp) = (s1, fx1)"
        and b: "fallback_branch e f (locals_of K c) s1 = (s2, fx2)"
        and d: "daily_branch e f (locals_of K c) s2 = (s3, fx3)"
        and c': "c' = cfg s3" and fx: "fx = fx1 @ fx2 @ fx3"
      have inv: "set (or_nil (selected_match_ids (cfg s1))) = set (sel s1)"
        by (rule custom_branch_frame(3) [OF a]) simp
      from fallback_branch_frame [OF b] daily_branch_frame [OF d]
      have rest: "selected_match_ids (cfg s3) = selected_match_ids (cfg s1)"
        "tracked_ids fx2 = []" "tracked_ids fx3 = []"
        by simp_all
      from custom_branch_frame(1,2) [OF a] inv rest show ?thesis
        by (simp add: fx c')
    qed
  qed
  then show "set (tracked_ids fx) \<subseteq> set (or_nil (selected_match_ids c))"
    and "set (or_nil (selected_match_ids c')) \<subseteq> set (or_nil (selected_match_ids c))"
    by simp_all
qed

lemma later_turns_tracked:
  "set (tracked_ids (later_turns K ts c)) \<subseteq> set (or_nil (selected_match_ids c))"
proof (induction ts arbitrary: c)
  case Nil
  show ?case by simp
next
  case (Cons t ts)
  obtain e f lp where t: "t = (e, f, lp)" by (cases t)
  obtain c' lp' fx where r: "tick_guild K e f c lp = (c', lp', fx)"
    by (cases "tick_guild K e f c lp")
  from tick_guild_tracked [OF r] Cons.IH [of c'] show ?case
    by (auto simp: t r)
qed

lemma mode_custom: "mode c = Some ''custom'' \<Longrightarrow> l_mode (locals_of K c) = ''custom''"
  by (simp add: locals_of_def str_or_def or_empty_def)

text \<open>
  Claim C1, as the code has it. A tenant in custom mode that is due, and a match of the
  current feed that is selected, passes the tenant's filters and has a status matching
  \<^verbatim>\<open>FINISHED_RE\<close>, in a turn whose sends and saves complete (the final scorecard
  apart, which may fail): after the turn the identity is no longer selected, the entry saved
  last is the entry the turn ends with, and the notice that tracking stopped has been sent.
  The final scorecard has been sent if the scorecard could be fetched and its message
  completes. However many turns the tenant takes afterwards on the entry as the turn before
  left it, whatever the clock, the answers of the outside and the throttle map, none of them
  sends a post of the custom branch (final scorecard, notice, live update) about that
  identity.
\<close>

theorem finished_match_untracked:
  assumes en: "enabled e c" and md: "mode c = Some ''custom''"
    and due: "(case next_due c of None \<Rightarrow> 0 | Some t \<Rightarrow> t) \<le> now e"
    and tracked: "matchIdOf m \<in> set (or_nil (selected_match_ids c))"
    and feed: "m \<in> set (f_current f)" and rel: "relevant (locals_of K c) m"
    and fin: "FINISHED_RE_test (or_empty (m_status m))"
    and ok: "reliable f"
    and res: "tick_guild K e f c lp = (c', lp', fx)"
  shows "matchIdOf m \<notin> set (or_nil (selected_match_ids c'))
     \<and> last_saved fx = Some c'
     \<and> Send (StoppedTracking (matchIdOf m)) \<in> set fx
     \<and> (\<forall>sc. f_scorecard f (matchIdOf m) = Inr sc
             \<and> (\<forall>n. f_completes f n (Send (FinalScorecard (matchIdOf m) sc)))
           \<longrightarrow> Send (FinalScorecard (matchIdOf m) sc) \<in> set fx)
     \<and> (\<forall>ts. matchIdOf m \<notin> set (tracked_ids (later_turns K ts c')))"
  using en res
proof (rule tick_guild_enabled)
  fix s1 fx1 s2 fx2 s3 fx3
  let ?l = "locals_of K c" and ?i = "matchIdOf m"
  assume a: "custom_branch K e f ?l (start_turn c lp) = (s1, fx1)"
    and b: "fallback_branch e f ?l s1 = (s2, fx2)"
    and d: "daily_branch e f ?l s2 = (s3, fx3)"
    and c': "c' = cfg s3" and fx: "fx = fx1 @ fx2 @ fx3"
  have g: "guard BranchA (l_mode ?l) (sel (start_turn c lp))"
    using tracked by (auto simp: guard_def mode_custom [OF md])
  have inv0: "set (or_nil (selected_match_ids (cfg (start_turn c lp)))) = set (sel (start_turn c lp))"
    by simp
  have nt1: "\<not> thrown s1"
    using custom_branch_frame(7) [OF a ok] by simp
  have nt2: "\<not> thrown s2"
    using fallback_branch_frame [OF b] ok nt1 by simp
  have nt3: "\<not> thrown s3"
    using daily_branch_frame [OF d] ok nt2 by simp
  from a have A: "?i \<notin> set (sel s1) \<and> Send (StoppedTracking ?i) \<in> set fx1
      \<and> (\<forall>sc. f_scorecard f ?i = Inr sc
              \<and> (\<forall>n. f_completes f n (Send (FinalScorecard ?i sc)))
            \<longrightarrow> Send (FinalScorecard ?i sc) \<in> set fx1)
      \<and> last_saved fx1 = Some (cfg s1)"
  proof (cases rule: custom_branch_cases)
    case idle
    with g due show ?thesis by simp
  next
    case aborted
    with nt1 show ?thesis by simp
  next
    case (ran t1 gx1 rest)
    from custom_loop_finished [OF ran(4,5) feed rel fin] tracked
    have "?i \<notin> set (sel t1)" "Send (StoppedTracking ?i) \<in> set gx1"
      "\<forall>sc. f_scorecard f ?i = Inr sc
              \<and> (\<forall>n. f_completes f n (Send (FinalScorecard ?i sc)))
            \<longrightarrow> Send (FinalScorecard ?i sc) \<in> set gx1"
      by simp_all
    moreover from ran(11) [OF nt1] have "last_saved fx1 = Some (cfg s1)"
      by (simp add: ran(9))
    ultimately show ?thesis
      by (simp add: ran(7,9))
  qed
  have inv1: "set (or_nil (selected_match_ids (cfg s1))) = set (sel s1)"
    using custom_branch_frame(3) [OF a inv0] .
  from fallback_branch_frame [OF b] daily_branch_frame [OF d] nt2 nt3
  have sel3: "selected_match_ids (cfg s3) = selected_match_ids (cfg s1)"
    and saved: "last_saved (fx2 @ fx3) = Some (cfg s3) \<or> (s3 = s1 \<and> fx2 @ fx3 = [])"
    by (auto simp: last_saved_append)
  have gone: "?i \<notin> set (or_nil (selected_match_ids c'))"
    using A inv1 by (simp add: c' sel3)
  have persisted: "last_saved fx = Some c'"
    using saved A by (auto simp: fx c' last_saved_append)
  have later: "?i \<notin> set (tracked_ids (later_turns K ts c'))" for ts
    using later_turns_tracked [of K ts c'] gone by blast
  from A gone persisted later show ?thesis
    by (simp add: fx)
qed

text \<open>The tenant of the examples when the Test match is won, and two later turns.\<close>

theorem finished_match_untracked_witness:
  "enabled (ex_env 1709300000) ex_cfg \<and> mode ex_cfg = Some ''custom''
   \<and> (case next_due ex_cfg of None \<Rightarrow> 0 | Some t \<Rightarrow> t) \<le> now (ex_env 1709300000)
   \<and> matchIdOf ex_won \<in> set (or_nil (selected_match_ids ex_cfg))
   \<and> ex_won \<in> set (f_current (ex_feeds [ex_won]))
   \<and> relevant (locals_of ex_params ex_cfg) ex_won
   \<and> FINISHED_RE_test (or_empty (m_status ex_won))
   \<and> reliable (ex_feeds [ex_won])
   \<and> fst (tick_guild ex_params (ex_env 1709300000) (ex_feeds [ex_won]) ex_cfg Map.empty)
       = ex_cfg_untracked
   \<and> matchIdOf ex_won \<notin> set (or_nil (selected_match_ids ex_cfg_untracked))
   \<and> last_saved (snd (snd (tick_guild ex_params (ex_env 1709300000) (ex_feeds [ex_won])
         ex_cfg Map.empty))) = Some ex_cfg_untracked
   \<and> Send (StoppedTracking ''test-1'')
       \<in> set (snd (snd (tick_guild ex_params (ex_env 1709300000) (ex_feeds [ex_won])
            ex_cfg Map.empty)))
   \<and> Send (FinalScorecard ''test-1'' (Scorecard ''card''))
       \<in> set (snd (snd (tick_guild ex_params (ex_env 1709300000) (ex_feeds [ex_won])
            ex_cfg Map.empty)))
   \<and> ''test-1'' \<notin> set (tracked_ids (later_turns ex_params
         [(ex_env 1709300600, ex_feeds [ex_won], Map.empty),
          (ex_env 1709301800, ex_feeds [ex_live], ex_posted)] ex_cfg_untracked))"
proof -
  let ?r = "tick_guild ex_params (ex_env 1709300000) (ex_feeds [ex_won]) ex_cfg Map.empty"
  let ?ts = "[(ex_env 1709300600, ex_feeds [ex_won], Map.empty),
              (ex_env 1709301800, ex_feeds [ex_live], ex_posted)]"
  have h1: "enabled (ex_env 1709300000) ex_cfg" by code_simp
  have h2: "mode ex_cfg = Some ''custom''" by code_simp
  have h3: "(case next_due ex_cfg of None \<Rightarrow> 0 | Some t \<Rightarrow> t) \<le> now (ex_env 1709300000)"
    by code_simp
  have h4: "matchIdOf ex_won \<in> set (or_nil (selected_match_ids ex_cfg))" by code_simp
  have h5: "ex_won \<in> set (f_current (ex_feeds [ex_won]))" by (simp add: ex_feeds_def)
  have h6: "relevant (locals_of ex_params ex_cfg) ex_won" by code_simp
  have h7: "FINISHED_RE_test (or_empty (m_status ex_won))" by code_simp
  have h8: "reliable (ex_feeds [ex_won])" by (simp add: reliable_def ex_feeds_def)
  have h9: "?r = (fst ?r, fst (snd ?r), snd (snd ?r))" by simp
  have c': "fst ?r = ex_cfg_untracked" by code_simp
  have i: "matchIdOf ex_won = ''test-1''" by code_simp
  have sc: "f_scorecard (ex_feeds [ex_won]) ''test-1'' = Inr (Scorecard ''card'')"
    "\<forall>n. f_completes (ex_feeds [ex_won]) n (Send (FinalScorecard ''test-1'' (Scorecard ''card'')))"
    by (simp_all add: ex_feeds_def)
  note t = finished_match_untracked [OF h1 h2 h3 h4 h5 h6 h7 h8 h9]
  from t sc have "Send (FinalScorecard ''test-1'' (Scorecard ''card'')) \<in> set (snd (snd ?r))"
    unfolding i by blast
  moreover from t have "''test-1'' \<notin> set (tracked_ids (later_turns ex_params ?ts
      ex_cfg_untracked))"
    unfolding i c' by blast
  moreover from t have "matchIdOf ex_won \<notin> set (or_nil (selected_match_ids ex_cfg_untracked))"
    "last_saved (snd (snd ?r)) = Some ex_cfg_untracked"
    "Send (StoppedTracking ''test-1'') \<in> set (snd (snd ?r))"
    unfolding i c' by blast+
  ultimately show ?thesis
    using h1 h2 h3 h4 h5 h6 h7 h8 c' by blast
qed

text \<open>
  Six runs against the claim as it is stated. "Match Tied" does not match
  \<^verbatim>\<open>FINISHED_RE\<close>: the match stays selected and gets a live update. A won match whose
  scorecard cannot be fetched is untracked without a final scorecard, and so is one whose
  scorecard is fetched but cannot be rendered or sent. Once the won match is untracked,
  the fallback summary of the same tenant posts it again when it is due. A won match that
  does not pass the tenant's category filter stays selected. And when the live update about
  another selected match throws, the turn ends before it reaches the won match, which stays
  selected.
\<close>

theorem finished_match_counterexample:
  "matchIdOf ex_tied \<in> set (or_nil (selected_match_ids ex_cfg))
   \<and> relevant (locals_of ex_params ex_cfg) ex_tied
   \<and> fst (tick_guild ex_params (ex_env 1709300000) (ex_feeds [ex_tied]) ex_cfg Map.empty)
       = ex_cfg \<lparr> next_due := Some 1709300600 \<rparr>
   \<and> snd (snd (tick_guild ex_params (ex_env 1709300000) (ex_feeds [ex_tied]) ex_cfg Map.empty))
       = [Send (LiveUpdate None ex_tied), Save (ex_cfg \<lparr> next_due := Some 1709300600 \<rparr>)]
   \<and> FINISHED_RE_test (or_empty (m_status ex_won))
   \<and> matchIdOf ex_won \<in> set (or_nil (selected_match_ids ex_cfg))
   \<and> relevant (locals_of ex_params ex_cfg) ex_won
   \<and> snd (snd (tick_guild ex_params (ex_env 1709300000) ex_no_scorecard ex_cfg Map.empty))
       = [Save (ex_cfg \<lparr> selected_match_ids := Some [] \<rparr>), Send (StoppedTracking ''test-1''),
          Save (ex_cfg \<lparr> selected_match_ids := Some [], next_due := Some 1709301800 \<rparr>),
          Save ex_cfg_untracked]
   \<and> f_scorecard (ex_unrendered (ex_feeds [ex_won])) ''test-1'' = Inr (Scorecard ''card'')
   \<and> snd (snd (tick_guild ex_params (ex_env 1709300000) (ex_unrendered (ex_feeds [ex_won]))
         ex_cfg Map.empty))
       = [Save (ex_cfg \<lparr> selected_match_ids := Some [] \<rparr>), Send (StoppedTracking ''test-1''),
          Save (ex_cfg \<lparr> selected_match_ids := Some [], next_due := Some 1709301800 \<rparr>),
          Save ex_cfg_untracked]
   \<and> fst (tick_guild ex_params (ex_env 1709300000) (ex_feeds [ex_won]) ex_cfg Map.empty)
       = ex_cfg_untracked
   \<and> Send (SummaryBatch None [ex_won])
       \<in> set (snd (snd (tick_guild ex_params (ex_env 1709326800) (ex_feeds [ex_won])
            ex_cfg_untracked Map.empty)))
   \<and> \<not> relevant (locals_of ex_params (ex_cfg \<lparr> filters := Some [''franchise''] \<rparr>)) ex_won
   \<and> fst (tick_guild ex_params (ex_env 1709300000) (ex_feeds [ex_won])
        (ex_cfg \<lparr> filters := Some [''franchise''] \<rparr>) Map.empty)
       = ex_cfg \<lparr> filters := Some [''franchise''], next_due := Some 1709301800 \<rparr>
   \<and> relevant (locals_of ex_params
         (ex_cfg \<lparr> selected_match_ids := Some [''test-2'', ''test-1''] \<rparr>)) ex_won
   \<and> fst (tick_guild ex_params (ex_env 1709300000)
         (ex_refused (ex_feeds [ex_live \<lparr> m_id := Some ''test-2'' \<rparr>, ex_won]))
         (ex_cfg \<lparr> selected_match_ids := Some [''test-2'', ''test-1''] \<rparr>) Map.empty)
       = ex_cfg \<lparr> selected_match_ids := Some [''test-2'', ''test-1''] \<rparr>
   \<and> snd (snd (tick_guild ex_params (ex_env 1709300000)
         (ex_refused (ex_feeds [ex_live \<lparr> m_id := Some ''test-2'' \<rparr>, ex_won]))
         (ex_cfg \<lparr> selected_match_ids := Some [''test-2'', ''test-1''] \<rparr>) Map.empty)) = []"
  by code_simp

subsection \<open>The throttle within one turn\<close>

lemma last_posted_Some [simp]: "lp i = Some t \<Longrightarrow> last_posted lp i = Some t"
  by (simp add: last_posted_def)

lemma custom_step_throttled:
  assumes "custom_step K e f l m s = (s', fx)" "lastPostedByMatch s i = Some t0"
    "now e < t0 + of_int (POLL_SECONDS K) - 5"
  shows "lastPostedByMatch s' i = Some t0 \<and> i \<notin> set (live_ids fx)"
proof (cases "live_ids fx = []")
  case True
  with custom_step_quiet [OF assms(1)] assms(2) show ?thesis by simp
next
  case False
  from custom_step_live [OF assms(1) False] obtain t
    where 1: "live_ids fx = [matchIdOf m]"
      "lastPostedByMatch s' = (lastPostedByMatch s)(matchIdOf m \<mapsto> now e)"
      "last_posted (lastPostedByMatch s) (matchIdOf m) = Some t"
      "now e - t \<ge> of_int (POLL_SECONDS K) - 5"
    by blast
  have "matchIdOf m \<noteq> i"
  proof
    assume "matchIdOf m = i"
    with 1(3) assms(2) have "t = t0" by simp
    with 1(4) assms(3) show False by simp
  qed
  with 1 assms(2) show ?thesis by simp
qed

lemma custom_loop_throttled:
  "custom_loop K e f l ms s = (s', fx) \<Longrightarrow> lastPostedByMatch s i = Some t0
   \<Longrightarrow> now e < t0 + of_int (POLL_SECONDS K) - 5
   \<Longrightarrow> lastPostedByMatch s' i = Some t0 \<and> i \<notin> set (live_ids fx)"
proof (induction rule: custom_loop_induct)
  case (Nil s)
  then show ?case by simp
next
  case (Step m ms s s1 fx1 s2 fx2)
  from custom_step_throttled [OF Step(1) Step.prems]
  have 1: "lastPostedByMatch s1 i = Some t0" "i \<notin> set (live_ids fx1)"
    by auto
  from Step.IH [OF 1(1) Step.prems(2)] 1(2) show ?case
    by simp
qed

lemma custom_step_now:
  assumes "custom_step K e f l m s = (s', fx)" "lastPostedByMatch s i = Some (now e)"
  shows "lastPostedByMatch s' i = Some (now e)"
proof (cases "live_ids fx = []")
  case True
  with custom_step_quiet [OF assms(1)] assms(2) show ?thesis by simp
next
  case False
  from custom_step_live [OF assms(1) False] assms(2) show ?thesis by simp
qed

lemma custom_loop_now:
  "custom_loop K e f l ms s = (s', fx) \<Longrightarrow> lastPostedByMatch s i = Some (now e)
   \<Longrightarrow> lastPostedByMatch s' i = Some (now e)"
proof (induction rule: custom_loop_induct)
  case (Nil s)
  then show ?case by simp
next
  case (Step m ms s s1 fx1 s2 fx2)
  from Step.IH [OF custom_step_now [OF Step(1) Step.prems]] show ?case .
qed

lemma custom_loop_append:
  "custom_loop K e f l (xs @ ys) s =
     (case custom_loop K e f l xs s of
        (s1, fx1) \<Rightarrow> (case custom_loop K e f l ys s1 of (s2, fx2) \<Rightarrow> (s2, fx1 @ fx2)))"
  by (induction xs arbitrary: s) (auto split: prod.splits)

lemma custom_step_posts:
  assumes "\<not> thrown s" "matchIdOf m \<in> set (sel s)" "relevant l m"
    "\<not> FINISHED_RE_test (or_empty (m_status m))" "relevantLive m"
    "lastPostedByMatch s (matchIdOf m) = Some t0"
    "t0 + of_int (POLL_SECONDS K) - 5 \<le> now e"
    "f_completes f (attempts s) (Send (LiveUpdate (l_pingStr l) m))"
    "custom_step K e f l m s = (s', fx)"
  shows "fx = [Send (LiveUpdate (l_pingStr l) m)]
         \<and> lastPostedByMatch s' (matchIdOf m) = Some (now e)"
  using assms(9)
proof (cases rule: custom_step_cases)
  case skip
  with assms show ?thesis by simp
next
  case (finished fx1 rest)
  with assms show ?thesis by simp
next
  case (post t)
  then show ?thesis by simp
next
  case quiet
  from quiet(11) [of t0] assms(6,7,8) show ?thesis by simp
qed

lemma custom_loop_posts:
  assumes lp: "custom_loop K e f l (pre @ m # post) s = (s', fx)"
    and first: "matchIdOf m \<notin> matchIdOf ` set pre"
    and m: "matchIdOf m \<in> set (sel s)" "relevant l m"
      "\<not> FINISHED_RE_test (or_empty (m_status m))" "relevantLive m"
    and last: "lastPostedByMatch s (matchIdOf m) = Some t0"
      "t0 + of_int (POLL_SECONDS K) - 5 \<le> now e"
    and ok: "reliable f" "\<not> thrown s"
  shows "Send (LiveUpdate (l_pingStr l) m) \<in> set fx
         \<and> lastPostedByMatch s' (matchIdOf m) = Some (now e)"
proof -
  let ?i = "matchIdOf m"
  obtain s1 fx1 where a: "custom_loop K e f l pre s = (s1, fx1)"
    by (cases "custom_loop K e f l pre s")
  obtain s2 fx2 where b: "custom_step K e f l m s1 = (s2, fx2)"
    by (cases "custom_step K e f l m s1")
  obtain s3 fx3 where d: "custom_loop K e f l post s2 = (s3, fx3)"
    by (cases "custom_loop K e f l post s2")
  from lp a b d have res: "s' = s3" "fx = fx1 @ fx2 @ fx3"
    by (simp_all add: custom_loop_append)
  from custom_loop_other [OF a first] m(1) last(1)
  have 1: "?i \<in> set (sel s1)" "lastPostedByMatch s1 ?i = Some t0"
    by simp_all
  have nt: "\<not> thrown s1"
    using custom_loop_reliable [OF a ok] .
  have cm: "f_completes f (attempts s1) (Send (LiveUpdate (l_pingStr l) m))"
    using ok(1) by (rule reliable_completes) simp
  from custom_step_posts [OF nt 1(1) m(2,3,4) 1(2) last(2) cm b]
  have 2: "fx2 = [Send (LiveUpdate (l_pingStr l) m)]"
    "lastPostedByMatch s2 ?i = Some (now e)"
    by auto
  from custom_loop_now [OF d 2(2)] 2(1) show ?thesis
    by (simp add: res)
qed

lemma live_ids_idle:
  "tracked_ids fx = [] \<Longrightarrow> live_ids fx = []"
  using live_ids_tracked [of fx] by simp

lemma l_pingStr_locals [simp]: "l_pingStr (locals_of K c) = mentionText c"
  by (simp add: locals_of_def)

text \<open>The custom branch changes the throttle map and sends live updates in its loop only.\<close>

lemma custom_branch_loop:
  assumes "custom_branch K e f l s = (s', fx)"
  obtains (idle) "lastPostedByMatch s' = lastPostedByMatch s" "live_ids fx = []"
      "thrown s \<or> \<not> (guard BranchA (l_mode l) (sel s)
          \<and> (case next_due (cfg s) of None \<Rightarrow> 0 | Some t \<Rightarrow> t) \<le> now e)"
  | (looped) s1 fx1 where "\<not> thrown s" "guard BranchA (l_mode l) (sel s)"
      "(case next_due (cfg s) of None \<Rightarrow> 0 | Some t \<Rightarrow> t) \<le> now e"
      "custom_loop K e f l (f_current f) (s\<lparr> anyLive := False \<rparr>) = (s1, fx1)"
      "lastPostedByMatch s' = lastPostedByMatch s1" "live_ids fx = live_ids fx1"
      "set fx1 \<subseteq> set fx"
  using assms
proof (cases rule: custom_branch_cases)
  case idle
  then show ?thesis by (intro that(1)) simp_all
next
  case aborted
  then show ?thesis by (intro that(2) [of s' fx]) simp_all
next
  case (ran s1 fx1 rest)
  from ran(10) have "live_ids rest = []" by auto
  with ran show ?thesis by (intro that(2) [of s1 fx1]) simp_all
qed

text \<open>
  Claim C6, as the code has it. The poll interval is 600 seconds and the throttle map holds
  \<open>t0\<close> for a match. A tenant's turn before \<open>t0 + 595\<close> sends no live update about the match
  and leaves the map as it is. A turn at or after \<open>t0 + 595\<close> of a tenant that is enabled, in
  custom mode and due, and that has selected the match, sends the live update and sets the
  map to the time of the tick, provided the sends and saves of the turn complete and the feed
  holds a record of the match that is live, has a status that does not match
  \<^verbatim>\<open>FINISHED_RE\<close>, passes the tenant's filters and is the first record with that
  identity.
\<close>

theorem live_update_throttle:
  assumes P: "POLL_SECONDS K = 600" and last: "lp i = Some t0"
    and res: "tick_guild K e f c lp = (c', lp', fx)"
  shows "(now e < t0 + 595 \<longrightarrow> i \<notin> set (live_ids fx) \<and> lp' i = Some t0)
     \<and> (t0 + 595 \<le> now e \<and> enabled e c \<and> mode c = Some ''custom''
          \<and> (case next_due c of None \<Rightarrow> 0 | Some t \<Rightarrow> t) \<le> now e
          \<and> i \<in> set (or_nil (selected_match_ids c))
          \<and> f_current f = pre @ m # post \<and> matchIdOf m = i \<and> i \<notin> matchIdOf ` set pre
          \<and> relevant (locals_of K c) m \<and> \<not> FINISHED_RE_test (or_empty (m_status m))
          \<and> relevantLive m \<and> reliable f
        \<longrightarrow> Send (LiveUpdate (mentionText c) m) \<in> set fx \<and> lp' i = Some (now e))"
proof (cases "enabled e c")
  case False
  with res last show ?thesis
    by (auto simp: tick_guild_disabled)
next
  case True
  from True res show ?thesis
  proof (rule tick_guild_enabled)
    fix s1 fx1 s2 fx2 s3 fx3
    let ?l = "locals_of K c"
    assume a: "custom_branch K e f ?l (start_turn c lp) = (s1, fx1)"
      and b: "fallback_branch e f ?l s1 = (s2, fx2)"
      and d: "daily_branch e f ?l s2 = (s3, fx3)"
      and lp': "lp' = lastPostedByMatch s3" and fx: "fx = fx1 @ fx2 @ fx3"
    from fallback_branch_frame [OF b] daily_branch_frame [OF d]
    have rest: "lastPostedByMatch s3 = lastPostedByMatch s1" "live_ids fx2 = []"
      "live_ids fx3 = []"
      by (simp_all add: live_ids_idle)
    have early: "i \<notin> set (live_ids fx1) \<and> lastPostedByMatch s1 i = Some t0"
      if "now e < t0 + 595"
      using a
    proof (cases rule: custom_branch_loop)
      case idle
      with last show ?thesis by simp
    next
      case (looped t1 gx1)
      from that P have "now e < t0 + of_int (POLL_SECONDS K) - 5" by simp
      from custom_loop_throttled [OF looped(4) _ this, of i] last
      show ?thesis by (simp add: looped(5,6))
    qed
    have late: "Send (LiveUpdate (mentionText c) m) \<in> set fx1
        \<and> lastPostedByMatch s1 i = Some (now e)"
      if h: "t0 + 595 \<le> now e" "mode c = Some ''custom''"
        "(case next_due c of None \<Rightarrow> 0 | Some t \<Rightarrow> t) \<le> now e"
        "i \<in> set (or_nil (selected_match_ids c))"
        "f_current f = pre @ m # post" "matchIdOf m = i" "i \<notin> matchIdOf ` set pre"
        "relevant ?l m" "\<not> FINISHED_RE_test (or_empty (m_status m))" "relevantLive m"
        "reliable f"
      using a
    proof (cases rule: custom_branch_loop)
      case idle
      from h(2,4) have "guard BranchA (l_mode ?l) (sel (start_turn c lp))"
        by (auto simp: guard_def mode_custom)
      with idle(3) h(3) show ?thesis by simp
    next
      case (looped t1 gx1)
      from h(1) P have due: "t0 + of_int (POLL_SECONDS K) - 5 \<le> now e" by simp
      have "Send (LiveUpdate (l_pingStr ?l) m) \<in> set gx1
         \<and> lastPostedByMatch t1 (matchIdOf m) = Some (now e)"
      proof (rule custom_loop_posts [OF _ _ _ h(8,9,10) _ due h(11)])
        show "custom_loop K e f ?l (pre @ m # post) (start_turn c lp\<lparr> anyLive := False \<rparr>)
                = (t1, gx1)"
          using looped(4) by (simp add: h(5))
        show "matchIdOf m \<notin> matchIdOf ` set pre"
          using h(6,7) by simp
        show "matchIdOf m \<in> set (sel (start_turn c lp\<lparr> anyLive := False \<rparr>))"
          using h(4,6) by simp
        show "lastPostedByMatch (start_turn c lp\<lparr> anyLive := False \<rparr>) (matchIdOf m) = Some t0"
          using last h(6) by simp
        show "\<not> thrown (start_turn c lp\<lparr> anyLive := False \<rparr>)"
          by simp
      qed
      with looped(7) show ?thesis
        by (auto simp: looped(5) h(6))
    qed
    from early late rest show ?thesis
      by (auto simp: fx lp')
  qed
qed

text \<open>A post at 1709299400: nothing ten seconds before the window opens, a live update
  600 seconds after the post.\<close>

theorem live_update_throttle_witness:
  "POLL_SECONDS ex_params = 600 \<and> ex_posted ''test-1'' = Some 1709299400
   \<and> now (ex_env 1709299990) < 1709299400 + 595
   \<and> ''test-1'' \<notin> set (live_ids (snd (snd (tick_guild ex_params (ex_env 1709299990)
         (ex_feeds [ex_live]) ex_cfg ex_posted))))
   \<and> 1709299400 + 595 \<le> now (ex_env 1709300000) \<and> enabled (ex_env 1709300000) ex_cfg
   \<and> mode ex_cfg = Some ''custom''
   \<and> (case next_due ex_cfg of None \<Rightarrow> 0 | Some t \<Rightarrow> t) \<le> now (ex_env 1709300000)
   \<and> ''test-1'' \<in> set (or_nil (selected_match_ids ex_cfg))
   \<and> f_current (ex_feeds [ex_live]) = [] @ ex_live # [] \<and> matchIdOf ex_live = ''test-1''
   \<and> relevant (locals_of ex_params ex_cfg) ex_live
   \<and> \<not> FINISHED_RE_test (or_empty (m_status ex_live)) \<and> relevantLive ex_live
   \<and> reliable (ex_feeds [ex_live])
   \<and> Send (LiveUpdate (mentionText ex_cfg) ex_live)
        \<in> set (snd (snd (tick_guild ex_params (ex_env 1709300000) (ex_feeds [ex_live])
             ex_cfg ex_posted)))
   \<and> fst (snd (tick_guild ex_params (ex_env 1709300000) (ex_feeds [ex_live]) ex_cfg
         ex_posted)) ''test-1'' = Some (now (ex_env 1709300000))"
proof -
  let ?early = "tick_guild ex_params (ex_env 1709299990) (ex_feeds [ex_live]) ex_cfg ex_posted"
  let ?late = "tick_guild ex_params (ex_env 1709300000) (ex_feeds [ex_live]) ex_cfg ex_posted"
  have P: "POLL_SECONDS ex_params = 600" by code_simp
  have last: "ex_posted ''test-1'' = Some 1709299400" by code_simp
  have r1: "?early = (fst ?early, fst (snd ?early), snd (snd ?early))" by simp
  have r2: "?late = (fst ?late, fst (snd ?late), snd (snd ?late))" by simp
  have h1: "now (ex_env 1709299990) < 1709299400 + 595" by code_simp
  have h2: "1709299400 + 595 \<le> now (ex_env 1709300000) \<and> enabled (ex_env 1709300000) ex_cfg
     \<and> mode ex_cfg = Some ''custom''
     \<and> (case next_due ex_cfg of None \<Rightarrow> 0 | Some t \<Rightarrow> t) \<le> now (ex_env 1709300000)
     \<and> ''test-1'' \<in> set (or_nil (selected_match_ids ex_cfg))
     \<and> f_current (ex_feeds [ex_live]) = [] @ ex_live # [] \<and> matchIdOf ex_live = ''test-1''
     \<and> ''test-1'' \<notin> matchIdOf ` set []
     \<and> relevant (locals_of ex_params ex_cfg) ex_live
     \<and> \<not> FINISHED_RE_test (or_empty (m_status ex_live)) \<and> relevantLive ex_live"
    by code_simp
  have h3: "reliable (ex_feeds [ex_live])"
    by (simp add: reliable_def ex_feeds_def)
  from live_update_throttle [OF P last r1] h1
  have "''test-1'' \<notin> set (live_ids (snd (snd ?early)))"
    by blast
  moreover from live_update_throttle [OF P last r2, of "[]" ex_live "[]"] h2 h3
  have "Send (LiveUpdate (mentionText ex_cfg) ex_live) \<in> set (snd (snd ?late))
     \<and> fst (snd ?late) ''test-1'' = Some (now (ex_env 1709300000))"
    by blast
  ultimately show ?thesis
    using P last h1 h2 h3 by blast
qed

text \<open>
  Three runs against the claim as it is stated, 600 seconds after the last post. At the
  close of a day's play the Test match is live for \<^verbatim>\<open>relevantLive\<close>, but its status
  matches \<^verbatim>\<open>FINISHED_RE\<close>, which the loop tests first: the match is untracked, no
  live update is sent and the map keeps the time of the last post. During a session, in a
  channel that refuses the message, the exception ends the turn before the map is written.
  And in a feed that holds a won record of the match before the record of the session, the
  first record untracks the match and the second is passed over.
\<close>

theorem live_update_counterexample:
  "POLL_SECONDS ex_params = 600 \<and> ex_posted ''test-1'' = Some 1709299400
   \<and> (1709299400 :: rat) + 595 \<le> now (ex_env 1709300000)
   \<and> enabled (ex_env 1709300000) ex_cfg \<and> mode ex_cfg = Some ''custom''
   \<and> (case next_due ex_cfg of None \<Rightarrow> 0 | Some t \<Rightarrow> t) \<le> now (ex_env 1709300000)
   \<and> ''test-1'' \<in> set (or_nil (selected_match_ids ex_cfg))
   \<and> matchIdOf ex_stumps = ''test-1'' \<and> relevantLive ex_stumps
   \<and> relevant (locals_of ex_params ex_cfg) ex_stumps
   \<and> live_ids (snd (snd (tick_guild ex_params (ex_env 1709300000) (ex_feeds [ex_stumps])
        ex_cfg ex_posted))) = []
   \<and> Send (StoppedTracking ''test-1'')
       \<in> set (snd (snd (tick_guild ex_params (ex_env 1709300000) (ex_feeds [ex_stumps])
            ex_cfg ex_posted)))
   \<and> fst (snd (tick_guild ex_params (ex_env 1709300000) (ex_feeds [ex_stumps]) ex_cfg
        ex_posted)) ''test-1'' = Some 1709299400
   \<and> matchIdOf ex_live = ''test-1'' \<and> relevantLive ex_live
   \<and> relevant (locals_of ex_params ex_cfg) ex_live
   \<and> snd (snd (tick_guild ex_params (ex_env 1709300000) (ex_refused (ex_feeds [ex_live]))
        ex_cfg ex_posted)) = []
   \<and> fst (snd (tick_guild ex_params (ex_env 1709300000) (ex_refused (ex_feeds [ex_live]))
        ex_cfg ex_posted)) ''test-1'' = Some 1709299400
   \<and> fst (tick_guild ex_params (ex_env 1709300000) (ex_refused (ex_feeds [ex_live]))
        ex_cfg ex_posted) = ex_cfg
   \<and> \<not> FINISHED_RE_test (or_empty (m_status ex_live))
   \<and> ex_live \<in> set (f_current (ex_feeds [ex_won, ex_live]))
   \<and> live_ids (snd (snd (tick_guild ex_params (ex_env 1709300000)
        (ex_feeds [ex_won, ex_live]) ex_cfg ex_posted))) = []
   \<and> fst (snd (tick_guild ex_params (ex_env 1709300000) (ex_feeds [ex_won, ex_live]) ex_cfg
        ex_posted)) ''test-1'' = Some 1709299400"
  by code_simp

subsection \<open>The throttle across tenants and ticks\<close>

lemma spaced_snoc:
  "spaced P (L @ [(t, g, i)]) \<longleftrightarrow>
     spaced P L \<and> (\<forall>(t0, g0, i0) \<in> set L. i0 = i \<longrightarrow> t0 + of_int P - 5 \<le> t)"
  by (induction L) auto

lemma spaced_split:
  "spaced P (a @ (t1, g1, i) # b @ (t2, g2, i) # c) \<Longrightarrow> t1 + of_int P - 5 \<le> t2"
  by (induction a) auto

lemma recorded_mono: "recorded T L lp \<Longrightarrow> T \<le> T' \<Longrightarrow> recorded T' L lp"
  by (fastforce simp: recorded_def)

lemma recorded_Nil [simp]: "recorded T [] lp"
  by (simp add: recorded_def)

lemma custom_step_spaced:
  assumes st: "custom_step K e f l m s = (s', fx)"
    and sp: "spaced (POLL_SECONDS K) L" and rc: "recorded T L (lastPostedByMatch s)"
    and T: "T \<le> now e"
  shows "spaced (POLL_SECONDS K) (L @ map (\<lambda>i. (now e, g, i)) (live_ids fx))
         \<and> recorded (now e) (L @ map (\<lambda>i. (now e, g, i)) (live_ids fx)) (lastPostedByMatch s')"
proof (cases "live_ids fx = []")
  case True
  with custom_step_quiet [OF st] sp recorded_mono [OF rc T] show ?thesis by simp
next
  case False
  let ?i = "matchIdOf m"
  from custom_step_live [OF st False] obtain t
    where ids: "live_ids fx = [?i]"
      and lp': "lastPostedByMatch s' = (lastPostedByMatch s)(?i \<mapsto> now e)"
      and t: "last_posted (lastPostedByMatch s) ?i = Some t"
        "now e - t \<ge> of_int (POLL_SECONDS K) - 5"
    by blast
  have far: "t0 + of_int (POLL_SECONDS K) - 5 \<le> now e" if "(t0, g0, ?i) \<in> set L" for t0 g0
  proof -
    from rc that obtain t' where t': "lastPostedByMatch s ?i = Some t'" "t0 \<le> t'"
      by (fastforce simp: recorded_def)
    with t show ?thesis by simp
  qed
  have 1: "spaced (POLL_SECONDS K) (L @ [(now e, g, ?i)])"
    using sp far by (auto simp: spaced_snoc)
  have 2: "recorded (now e) (L @ [(now e, g, ?i)]) (lastPostedByMatch s')"
    using recorded_mono [OF rc T] by (fastforce simp: recorded_def lp')
  from 1 2 show ?thesis by (simp add: ids)
qed

lemma custom_loop_spaced:
  "custom_loop K e f l ms s = (s', fx) \<Longrightarrow> spaced (POLL_SECONDS K) L
   \<Longrightarrow> recorded T L (lastPostedByMatch s) \<Longrightarrow> T \<le> now e
   \<Longrightarrow> spaced (POLL_SECONDS K) (L @ map (\<lambda>i. (now e, g, i)) (live_ids fx))
       \<and> recorded (now e) (L @ map (\<lambda>i. (now e, g, i)) (live_ids fx)) (lastPostedByMatch s')"
proof (induction arbitrary: L T rule: custom_loop_induct)
  case (Nil s)
  then show ?case using recorded_mono by simp
next
  case (Step m ms s s1 fx1 s2 fx2)
  let ?L1 = "L @ map (\<lambda>i. (now e, g, i)) (live_ids fx1)"
  from custom_step_spaced [OF Step(1) Step.prems]
  have 1: "spaced (POLL_SECONDS K) ?L1" "recorded (now e) ?L1 (lastPostedByMatch s1)"
    by auto
  from Step.IH [OF 1] show ?case by simp
qed

lemma tick_guild_spaced:
  assumes res: "tick_guild K e f c lp = (c', lp', fx)"
    and sp: "spaced (POLL_SECONDS K) L" and rc: "recorded T L lp" and T: "T \<le> now e"
  shows "spaced (POLL_SECONDS K) (L @ map (\<lambda>i. (now e, g, i)) (live_ids fx))
         \<and> recorded (now e) (L @ map (\<lambda>i. (now e, g, i)) (live_ids fx)) lp'"
proof (cases "enabled e c")
  case False
  with res sp recorded_mono [OF rc T] show ?thesis
    by (simp add: tick_guild_disabled)
next
  case True
  from True res show ?thesis
  proof (rule tick_guild_enabled)
    fix s1 fx1 s2 fx2 s3 fx3
    let ?l = "locals_of K c"
    assume a: "custom_branch K e f ?l (start_turn c lp) = (s1, fx1)"
      and b: "fallback_branch e f ?l s1 = (s2, fx2)"
      and d: "daily_branch e f ?l s2 = (s3, fx3)"
      and lp': "lp' = lastPostedByMatch s3" and fx: "fx = fx1 @ fx2 @ fx3"
    from fallback_branch_frame [OF b] daily_branch_frame [OF d]
    have rest: "lastPostedByMatch s3 = lastPostedByMatch s1" "live_ids fx2 = []"
      "live_ids fx3 = []"
      by (simp_all add: live_ids_idle)
    have "spaced (POLL_SECONDS K) (L @ map (\<lambda>i. (now e, g, i)) (live_ids fx1))
         \<and> recorded (now e) (L @ map (\<lambda>i. (now e, g, i)) (live_ids fx1)) (lastPostedByMatch s1)"
      using a
    proof (cases rule: custom_branch_loop)
      case idle
      with sp recorded_mono [OF rc T] show ?thesis by simp
    next
      case (looped t1 gx1)
      from custom_loop_spaced [OF looped(4) sp _ T, of g] rc show ?thesis
        by (simp add: looped(5,6))
    qed
    with rest show ?thesis by (simp add: fx lp')
  qed
qed

lemma live_posts_append [simp]: "live_posts (a @ b) = live_posts a @ live_posts b"
  by (simp add: live_posts_def)

lemma live_posts_Nil [simp]: "live_posts [] = []"
  by (simp add: live_posts_def)

lemma live_posts_tenant:
  "live_posts (map (Pair t \<circ> Pair g) fx) = map (\<lambda>i. (t, g, i)) (live_ids fx)"
  by (induction fx) (simp_all add: live_posts_def live_ids_def)

lemma tick_spaced:
  "tick K e feedsOf d lp = (d', lp', fx) \<Longrightarrow> spaced (POLL_SECONDS K) L
   \<Longrightarrow> recorded T L lp \<Longrightarrow> T \<le> now e
   \<Longrightarrow> spaced (POLL_SECONDS K) (L @ live_posts (map (Pair (now e)) fx))
       \<and> recorded (now e) (L @ live_posts (map (Pair (now e)) fx)) lp'"
proof (induction d arbitrary: lp d' lp' fx L T)
  case Nil
  then show ?case using recorded_mono by simp
next
  case (Cons gc rest)
  obtain g c where gc: "gc = (g, c)" by (cases gc)
  obtain c1 lp1 fx1 where a: "tick_guild K e (feedsOf g) c lp = (c1, lp1, fx1)"
    by (cases "tick_guild K e (feedsOf g) c lp")
  obtain r2 lp2 fx2 where b: "tick K e feedsOf rest lp1 = (r2, lp2, fx2)"
    by (cases "tick K e feedsOf rest lp1")
  from Cons.prems(1) a b have res: "lp' = lp2" "fx = map (Pair g) fx1 @ fx2"
    by (simp_all add: gc)
  let ?L1 = "L @ map (\<lambda>i. (now e, g, i)) (live_ids fx1)"
  from tick_guild_spaced [OF a Cons.prems(2,3,4), of g]
  have 1: "spaced (POLL_SECONDS K) ?L1" "recorded (now e) ?L1 lp1"
    by auto
  from Cons.IH [OF b 1] show ?case
    by (simp add: res live_posts_tenant)
qed

lemma run_spaced:
  "spaced (POLL_SECONDS K) L \<Longrightarrow> recorded T L lp
   \<Longrightarrow> sorted (T # map (\<lambda>tk. now (fst tk)) ticks)
   \<Longrightarrow> spaced (POLL_SECONDS K) (L @ live_posts (run K ticks d lp))"
proof (induction ticks arbitrary: L T lp d)
  case Nil
  then show ?case by simp
next
  case (Cons tk ticks)
  obtain e feedsOf where tk: "tk = (e, feedsOf)" by (cases tk)
  obtain d' lp' fx where a: "tick K e feedsOf d lp = (d', lp', fx)"
    by (cases "tick K e feedsOf d lp")
  from Cons.prems(3) have T: "T \<le> now e"
    and srt: "sorted (now e # map (\<lambda>tk. now (fst tk)) ticks)"
    by (simp_all add: tk)
  from tick_spaced [OF a Cons.prems(1,2) T]
  have 1: "spaced (POLL_SECONDS K) (L @ live_posts (map (Pair (now e)) fx))"
    "recorded (now e) (L @ live_posts (map (Pair (now e)) fx)) lp'"
    by auto
  from Cons.IH [OF 1 srt, of d'] a show ?case
    by (simp add: tk)
qed

text \<open>
  Claim C10. The throttle map is keyed by the identity of the match and shared by all
  tenants: in the log of any run of ticks whose clock does not go back, from any
  configuration and any throttle map, and whatever completes and whatever throws, a live
  update about a match is followed by another live update about the same match, by
  whichever tenant, only \<^verbatim>\<open>POLL_SECONDS - 5\<close> seconds later or more.
\<close>

theorem shared_throttle:
  assumes "sorted (map (now \<circ> fst) ticks)"
    and "live_posts (run K ticks d lp) = a @ (t1, g1, i) # b @ (t2, g2, i) # c"
  shows "t1 + of_int (POLL_SECONDS K) - 5 \<le> t2"
proof -
  have "spaced (POLL_SECONDS K) ([] @ live_posts (run K ticks d lp))"
  proof (cases ticks)
    case Nil
    then show ?thesis by simp
  next
    case (Cons tk rest)
    with assms(1) have "sorted (now (fst tk) # map (\<lambda>tk. now (fst tk)) ticks)"
      by (simp add: comp_def)
    then show ?thesis
      by (intro run_spaced [where T = "now (fst tk)"]) simp_all
  qed
  with assms(2) show ?thesis
    using spaced_split by simp
qed

text \<open>The first tenant posts at the first tick; the second tenant is due 300 seconds later
  and is held back; it posts at the third tick, 900 seconds after the first post.\<close>

theorem shared_throttle_witness:
  "sorted (map (now \<circ> fst) ex_three_ticks)
   \<and> live_posts (run ex_params ex_three_ticks ex_two_tenants Map.empty)
       = [] @ (1709300000, ''g1'', ''test-1'') # [] @ (1709300900, ''g2'', ''test-1'') # []
   \<and> (1709300000 :: rat) + of_int (POLL_SECONDS ex_params) - 5 \<le> 1709300900"
proof -
  have h1: "sorted (map (now \<circ> fst) ex_three_ticks)"
    by code_simp
  have h2: "live_posts (run ex_params ex_three_ticks ex_two_tenants Map.empty)
       = [] @ (1709300000, ''g1'', ''test-1'') # [] @ (1709300900, ''g2'', ''test-1'') # []"
    by code_simp
  from shared_throttle [OF h1 h2] h1 h2 show ?thesis
    by blast
qed

subsection \<open>Inherited keys of the throttle map\<close>

text \<open>The statement \<^verbatim>\<open>lastPostedByMatch[mid]=now\<close> is reached only for a key that reads
  as a number. A key that every object inherits and that the map does not hold is never
  posted about and never written: a map that starts without such keys, as \<^verbatim>\<open>{}\<close> does,
  never holds one, in particular not \<^verbatim>\<open>__proto__\<close>, the one key that an assignment
  would not write.\<close>

lemma custom_step_inherited:
  assumes "custom_step K e f l m s = (s', fx)" "i \<in> set Object_prototype_keys"
    "lastPostedByMatch s i = None"
  shows "lastPostedByMatch s' i = None \<and> i \<notin> set (live_ids fx)"
proof (cases "live_ids fx = []")
  case True
  with custom_step_quiet [OF assms(1)] assms(3) show ?thesis by simp
next
  case False
  from custom_step_live [OF assms(1) False] obtain t
    where 1: "live_ids fx = [matchIdOf m]"
      "lastPostedByMatch s' = (lastPostedByMatch s)(matchIdOf m \<mapsto> now e)"
      "last_posted (lastPostedByMatch s) (matchIdOf m) = Some t"
    by blast
  from 1(3) assms(2,3) have "matchIdOf m \<noteq> i"
    by (auto simp: last_posted_def)
  with 1 assms(3) show ?thesis by simp
qed

lemma custom_loop_inherited:
  "custom_loop K e f l ms s = (s', fx) \<Longrightarrow> i \<in> set Object_prototype_keys
   \<Longrightarrow> lastPostedByMatch s i = None
   \<Longrightarrow> lastPostedByMatch s' i = None \<and> i \<notin> set (live_ids fx)"
proof (induction rule: custom_loop_induct)
  case (Nil s)
  then show ?case by simp
next
  case (Step m ms s s1 fx1 s2 fx2)
  from custom_step_inherited [OF Step(1) Step.prems]
  have 1: "lastPostedByMatch s1 i = None" "i \<notin> set (live_ids fx1)"
    by auto
  from Step.IH [OF Step.prems(1) 1(1)] 1(2) show ?case
    by simp
qed

lemma tick_guild_inherited:
  assumes res: "tick_guild K e f c lp = (c', lp', fx)"
    and i: "i \<in> set Object_prototype_keys" "lp i = None"
  shows "lp' i = None \<and> i \<notin> set (live_ids fx)"
proof (cases "enabled e c")
  case False
  with res i show ?thesis
    by (simp add: tick_guild_disabled)
next
  case True
  from True res show ?thesis
  proof (rule tick_guild_enabled)
    fix s1 fx1 s2 fx2 s3 fx3
    let ?l = "locals_of K c"
    assume a: "custom_branch K e f ?l (start_turn c lp) = (s1, fx1)"
      and b: "fallback_branch e f ?l s1 = (s2, fx2)"
      and d: "daily_branch e f ?l s2 = (s3, fx3)"
      and lp': "lp' = lastPostedByMatch s3" and fx: "fx = fx1 @ fx2 @ fx3"
    from fallback_branch_frame [OF b] daily_branch_frame [OF d]
    have rest: "lastPostedByMatch s3 = lastPostedByMatch s1" "live_ids fx2 = []"
      "live_ids fx3 = []"
      by (simp_all add: live_ids_idle)
    have "lastPostedByMatch s1 i = None \<and> i \<notin> set (live_ids fx1)"
      using a
    proof (cases rule: custom_branch_loop)
      case idle
      with i show ?thesis by simp
    next
      case (looped t1 gx1)
      from custom_loop_inherited [OF looped(4) i(1)] i(2) show ?thesis
        by (simp add: looped(5,6))
    qed
    with rest show ?thesis by (simp add: fx lp')
  qed
qed

subsection \<open>The merge of the daily branches\<close>

lemma byId_put_keys: "fst ` set (byId_put al m) = insert (matchIdOf m) (fst ` set al)"
  by (induction al m rule: byId_put.induct) auto

lemma byId_put_keyed: "keyed al \<Longrightarrow> keyed (byId_put al m)"
proof (induction al m rule: byId_put.induct)
  case (1 m)
  show ?case by (simp add: keyed_def)
next
  case (2 k v r m)
  then have r: "keyed r" and k: "k = matchIdOf v" "k \<notin> fst ` set r"
    by (auto simp: keyed_def)
  show ?case
  proof (cases "k = matchIdOf m")
    case True
    with r k show ?thesis by (auto simp: keyed_def)
  next
    case False
    with "2.IH" [OF False r] k show ?thesis
      by (auto simp: keyed_def byId_put_keys)
  qed
qed

lemma byId_put_values:
  "keyed al \<Longrightarrow>
   snd ` set (byId_put al m) = insert m {v \<in> snd ` set al. matchIdOf v \<noteq> matchIdOf m}"
proof (induction al m rule: byId_put.induct)
  case (1 m)
  show ?case by simp
next
  case (2 k v r m)
  then have r: "keyed r" and k: "k = matchIdOf v" "k \<notin> fst ` set r"
    and vs: "\<forall>(k', v') \<in> set r. k' = matchIdOf v'"
    by (auto simp: keyed_def)
  show ?case
  proof (cases "k = matchIdOf m")
    case True
    have "matchIdOf v' \<noteq> matchIdOf m" if "v' \<in> snd ` set r" for v'
      using that vs k True by force
    with True k show ?thesis by auto
  next
    case False
    with "2.IH" [OF False r] k show ?thesis by auto
  qed
qed

lemma foldl_byId_keyed: "keyed al \<Longrightarrow> keyed (foldl byId_put al ms)"
  by (induction ms arbitrary: al) (simp_all add: byId_put_keyed)

text \<open>The assignments write the records whose identity is not \<^verbatim>\<open>__proto__\<close>.\<close>

lemma foldl_byId_assign:
  "foldl byId_assign al ms = foldl byId_put al (filter (\<lambda>m. matchIdOf m \<noteq> ''__proto__'') ms)"
  by (induction ms arbitrary: al) (simp_all add: byId_assign_def)

lemma set_Object_values [simp]: "set (Object_values al) = snd ` set al"
proof -
  have "{x \<in> set al. array_index (fst x) \<noteq> None} \<union> {x \<in> set al. array_index (fst x) = None}
          = set al"
    by auto
  then show ?thesis
    by (simp add: Object_values_def image_Un [symmetric])
qed

lemma latest_Nil [simp]: "\<not> latest [] m"
  by (simp add: latest_def)

lemma latest_snoc:
  "latest (xs @ [m]) v \<longleftrightarrow> v = m \<or> (latest xs v \<and> matchIdOf v \<noteq> matchIdOf m)"
proof
  assume "latest (xs @ [m]) v"
  then obtain p r where s: "xs @ [m] = p @ v # r" and n: "matchIdOf v \<notin> matchIdOf ` set r"
    by (auto simp: latest_def)
  show "v = m \<or> (latest xs v \<and> matchIdOf v \<noteq> matchIdOf m)"
  proof (cases r rule: rev_cases)
    case Nil
    with s show ?thesis by simp
  next
    case (snoc r' y)
    with s have "xs = p @ v # r'" "y = m"
      by simp_all
    with n snoc show ?thesis
      by (auto simp: latest_def)
  qed
next
  assume "v = m \<or> (latest xs v \<and> matchIdOf v \<noteq> matchIdOf m)"
  then show "latest (xs @ [m]) v"
  proof
    assume "v = m"
    then have "xs @ [m] = xs @ v # []" by simp
    then show ?thesis unfolding latest_def by fastforce
  next
    assume a: "latest xs v \<and> matchIdOf v \<noteq> matchIdOf m"
    then obtain p r where "xs = p @ v # r" "matchIdOf v \<notin> matchIdOf ` set r"
      by (auto simp: latest_def)
    with a have "xs @ [m] = p @ v # (r @ [m])" "matchIdOf v \<notin> matchIdOf ` set (r @ [m])"
      by auto
    then show ?thesis unfolding latest_def by blast
  qed
qed

lemma latest_filter:
  "latest (filter (\<lambda>m. P (matchIdOf m)) xs) v \<longleftrightarrow> latest xs v \<and> P (matchIdOf v)"
proof (induction xs rule: rev_induct)
  case Nil
  show ?case by simp
next
  case (snoc y xs)
  show ?case
  proof (cases "P (matchIdOf y)")
    case True
    then have "filter (\<lambda>m. P (matchIdOf m)) (xs @ [y]) = filter (\<lambda>m. P (matchIdOf m)) xs @ [y]"
      by simp
    with snoc True show ?thesis
      by (auto simp: latest_snoc)
  next
    case False
    then have "filter (\<lambda>m. P (matchIdOf m)) (xs @ [y]) = filter (\<lambda>m. P (matchIdOf m)) xs"
      by simp
    with snoc False show ?thesis
      by (auto simp: latest_snoc)
  qed
qed

lemma foldl_byId_put_latest: "snd ` set (foldl byId_put [] xs) = {m. latest xs m}"
proof (induction xs rule: rev_induct)
  case Nil
  show ?case by simp
next
  case (snoc m xs)
  have k: "keyed (foldl byId_put [] xs)"
    by (rule foldl_byId_keyed) (simp add: keyed_def)
  have "snd ` set (foldl byId_put [] (xs @ [m])) = snd ` set (byId_put (foldl byId_put [] xs) m)"
    by simp
  also have "\<dots> = insert m {v \<in> snd ` set (foldl byId_put [] xs). matchIdOf v \<noteq> matchIdOf m}"
    using byId_put_values [OF k] by simp
  also have "\<dots> = {v. latest (xs @ [m]) v}"
    using snoc by (auto simp: latest_snoc)
  finally show ?case .
qed

lemma byId_values_latest:
  "set (byId_values xs) = {m. latest xs m \<and> matchIdOf m \<noteq> ''__proto__''}"
  using latest_filter [of "\<lambda>i. i \<noteq> ''__proto__''" xs]
  by (simp add: byId_values_def foldl_byId_assign foldl_byId_put_latest)

text \<open>Where the identity of a merged match occurs among the current matches, the merged record
  is one of them.\<close>

lemma latest_append_right:
  assumes "latest (xs @ ys) m" "matchIdOf m \<in> matchIdOf ` set ys"
  shows "m \<in> set ys"
  using assms
proof (induction ys arbitrary: m rule: rev_induct)
  case Nil
  then show ?case by simp
next
  case (snoc y ys)
  from snoc.prems(1) have "m = y \<or> (latest (xs @ ys) m \<and> matchIdOf m \<noteq> matchIdOf y)"
    using latest_snoc [of "xs @ ys" y m] by simp
  then show ?case
  proof
    assume "m = y"
    then show ?thesis by simp
  next
    assume a: "latest (xs @ ys) m \<and> matchIdOf m \<noteq> matchIdOf y"
    with snoc.prems(2) have "matchIdOf m \<in> matchIdOf ` set ys" by auto
    with snoc.IH a show ?thesis by simp
  qed
qed

lemma concat_slices: "concat (slices xs) = xs"
proof (induction xs rule: slices.induct)
  case (1 xs)
  show ?case
  proof (cases "xs = []")
    case True
    then show ?thesis by (simp add: slices.simps)
  next
    case False
    with 1 have "concat (slices (drop 8 xs)) = drop 8 xs" by simp
    with False show ?thesis
      by (subst slices.simps) simp
  qed
qed

lemma summary_matches_simps [simp]:
  "summary_matches [] = []" "summary_matches (Save c # fx) = summary_matches fx"
  "summary_matches (Send (SummaryBatch p ms) # fx) = ms @ summary_matches fx"
  "summary_matches (Send NoFallbackMatches # fx) = summary_matches fx"
  "summary_matches (Send NoDailyMatches # fx) = summary_matches fx"
  "summary_matches (Send (TomorrowFixtures ms) # fx) = summary_matches fx"
  by (simp_all add: summary_matches_def)

lemma summary_matches_batches:
  "summary_matches (map (Send \<circ> SummaryBatch p) bs) = concat bs"
  by (induction bs) simp_all

lemma summary_matches_posts [simp]:
  "summary_matches (map Send (summary_posts p NoFallbackMatches ms)) = ms"
  "summary_matches (map Send (summary_posts p NoDailyMatches ms)) = ms"
proof -
  have "summary_matches (map Send (summary_posts p none ms)) = ms"
    if "summary_matches [Send none] = []" for none
  proof (cases "ms = []")
    case True
    with that show ?thesis by (simp add: summary_posts_def)
  next
    case False
    then have "summary_matches (map Send (summary_posts p none ms)) = concat (slices ms)"
      by (simp add: summary_posts_def summary_matches_batches slices.simps [of ms])
    then show ?thesis by (simp add: concat_slices)
  qed
  then show "summary_matches (map Send (summary_posts p NoFallbackMatches ms)) = ms"
    "summary_matches (map Send (summary_posts p NoDailyMatches ms)) = ms"
    by simp_all
qed

lemma summary_matches_prefix:
  "prefix (a @ r) b \<Longrightarrow> set (summary_matches a) \<subseteq> set (summary_matches b)"
  by (auto simp: prefix_def)

lemma summary_matches_rest: "rest = [] \<or> rest = [Save c] \<Longrightarrow> summary_matches rest = []"
  by auto

lemma fallback_ok_iff:
  "fallback_ok e (locals_of K c) m \<longleftrightarrow>
     (guessCategory m = ''international''
        \<or> ((guessCategory m = ''domestic'' \<or> guessCategory m = ''first-class'')
            \<and> isIndianDomestic m))
     \<and> genderAllowed m (Some (case gender_filters c of None \<Rightarrow> [''men'', ''women'']
                              | Some gs \<Rightarrow> gs))
     \<and> teamAllowed m (Some (or_nil (team_filters c)))
     \<and> isTodayOrLive (utcDate e) (today e) m"
  by (auto simp: fallback_ok_def locals_of_def Let_def)

text \<open>A due fallback summary, on every entry into the branch: the matches of the embeds are
  among the filtered merge, and they are the filtered merge when nothing throws; the
  timestamp is written after the messages, once.\<close>

lemma fallback_branch_due:
  assumes nt: "\<not> thrown s" and g: "guard BranchB (l_mode l) (sel s)"
    and due: "fallback_summary (cfg s) = Some T" "T \<noteq> 0" "of_int T \<le> now e"
    and res: "fallback_branch e f l s = (s', fx)"
  shows "set (summary_matches fx)
           \<subseteq> set (filter (fallback_ok e l) (byId_values (f_todays f @ f_current f)))"
    and "\<not> thrown s' \<Longrightarrow> summary_matches fx
           = filter (fallback_ok e l) (byId_values (f_todays f @ f_current f))"
    and "fallback_summary (cfg s') = Some T \<or> fallback_summary (cfg s') = next_day T"
    and "\<not> thrown s' \<Longrightarrow> fallback_summary (cfg s') = next_day T \<and> last_saved fx = Some (cfg s')"
    and "\<forall>d \<in> set (saved fx). fallback_summary d = next_day T"
    and "reliable f \<Longrightarrow> \<not> thrown s'"
proof -
  let ?ms = "filter (fallback_ok e l) (byId_values (f_todays f @ f_current f))"
  have "set (summary_matches fx) \<subseteq> set ?ms
      \<and> (\<not> thrown s' \<longrightarrow> summary_matches fx = ?ms)
      \<and> (fallback_summary (cfg s') = Some T \<or> fallback_summary (cfg s') = next_day T)
      \<and> (\<not> thrown s' \<longrightarrow> fallback_summary (cfg s') = next_day T
            \<and> last_saved fx = Some (cfg s'))
      \<and> (\<forall>d \<in> set (saved fx). fallback_summary d = next_day T)
      \<and> (reliable f \<longrightarrow> \<not> thrown s')"
    using res
  proof (cases rule: fallback_branch_cases)
    case idle
    with nt g due show ?thesis by auto
  next
    case init
    with due show ?thesis by (simp add: unset_def)
  next
    case (aborted T')
    from aborted(13) obtain r
      where "prefix (fx @ r) (map Send (summary_posts (l_pingStr l) NoFallbackMatches ?ms))"
      by blast
    from summary_matches_prefix [OF this] have "set (summary_matches fx) \<subseteq> set ?ms"
      by simp
    with aborted due show ?thesis by simp
  next
    case (fire T' t rest)
    from fire(3) due have T': "T' = T" by simp
    have 1: "summary_matches fx = ?ms"
      using summary_matches_rest [OF fire(10)] by (simp add: fire(9))
    have 2: "saved fx = saved rest"
      by (simp add: fire(9))
    have 3: "\<forall>d \<in> set (saved fx). fallback_summary d = next_day T"
      using fire(10) by (auto simp: 2 fire(6) T')
    have 4: "last_saved fx = Some (cfg s')" if "\<not> thrown s'"
      using fire(11) [OF that] by (simp add: last_saved_def 2)
    from 1 3 4 fire(12) show ?thesis
      by (simp add: fire(6) T')
  qed
  then show "set (summary_matches fx) \<subseteq> set ?ms"
    and "\<not> thrown s' \<Longrightarrow> summary_matches fx = ?ms"
    and "fallback_summary (cfg s') = Some T \<or> fallback_summary (cfg s') = next_day T"
    and "\<not> thrown s' \<Longrightarrow> fallback_summary (cfg s') = next_day T \<and> last_saved fx = Some (cfg s')"
    and "\<forall>d \<in> set (saved fx). fallback_summary d = next_day T"
    and "reliable f \<Longrightarrow> \<not> thrown s'"
    by simp_all
qed

lemma daily_branch_due:
  assumes nt: "\<not> thrown s" and g: "guard BranchC (l_mode l) (sel s)"
    and due: "next_summary (cfg s) = Some T" "T \<noteq> 0" "of_int T \<le> now e"
    and res: "daily_branch e f l s = (s', fx)"
  shows "set (summary_matches fx)
           \<subseteq> set (filter (daily_ok e l) (byId_values (f_todays f @ f_current f)))"
    and "\<not> thrown s' \<Longrightarrow> summary_matches fx
           = filter (daily_ok e l) (byId_values (f_todays f @ f_current f))"
    and "next_summary (cfg s') = Some T \<or> next_summary (cfg s') = next_day T"
    and "\<not> thrown s' \<Longrightarrow> next_summary (cfg s') = next_day T \<and> last_saved fx = Some (cfg s')"
    and "\<forall>d \<in> set (saved fx). next_summary d = next_day T"
    and "reliable f \<Longrightarrow> \<not> thrown s'"
proof -
  let ?ms = "filter (daily_ok e l) (byId_values (f_todays f @ f_current f))"
  have "set (summary_matches fx) \<subseteq> set ?ms
      \<and> (\<not> thrown s' \<longrightarrow> summary_matches fx = ?ms)
      \<and> (next_summary (cfg s') = Some T \<or> next_summary (cfg s') = next_day T)
      \<and> (\<not> thrown s' \<longrightarrow> next_summary (cfg s') = next_day T
            \<and> last_saved fx = Some (cfg s'))
      \<and> (\<forall>d \<in> set (saved fx). next_summary d = next_day T)
      \<and> (reliable f \<longrightarrow> \<not> thrown s')"
    using res
  proof (cases rule: daily_branch_cases)
    case idle
    with nt g due show ?thesis by auto
  next
    case init
    with due show ?thesis by (simp add: unset_def)
  next
    case (aborted T')
    from aborted(13) obtain r
      where "prefix (fx @ r) (map Send (summary_posts (l_pingStr l) NoDailyMatches ?ms))"
      by blast
    from summary_matches_prefix [OF this] have "set (summary_matches fx) \<subseteq> set ?ms"
      by simp
    with aborted due show ?thesis by simp
  next
    case (fire T' t rest)
    from fire(3) due have T': "T' = T" by simp
    have 1: "summary_matches fx = ?ms"
      using summary_matches_rest [OF fire(10)] by (simp add: fire(9))
    have 2: "saved fx = saved rest"
      by (simp add: fire(9))
    have 3: "\<forall>d \<in> set (saved fx). next_summary d = next_day T"
      using fire(10) by (auto simp: 2 fire(6) T')
    have 4: "last_saved fx = Some (cfg s')" if "\<not> thrown s'"
      using fire(11) [OF that] by (simp add: last_saved_def 2)
    from 1 3 4 fire(12) show ?thesis
      by (simp add: fire(6) T')
  qed
  then show "set (summary_matches fx) \<subseteq> set ?ms"
    and "\<not> thrown s' \<Longrightarrow> summary_matches fx = ?ms"
    and "next_summary (cfg s') = Some T \<or> next_summary (cfg s') = next_day T"
    and "\<not> thrown s' \<Longrightarrow> next_summary (cfg s') = next_day T \<and> last_saved fx = Some (cfg s')"
    and "\<forall>d \<in> set (saved fx). next_summary d = next_day T"
    and "reliable f \<Longrightarrow> \<not> thrown s'"
    by simp_all
qed

text \<open>The turn of a tenant in custom mode with no selected match is its fallback branch; the
  turn of a tenant in daily mode is its daily branch.\<close>

lemma fallback_turn:
  assumes en: "enabled e c" and md: "mode c = Some ''custom''"
    and none: "or_nil (selected_match_ids c) = []"
    and res: "tick_guild K e f c lp = (c', lp', fx)"
  obtains s' where "fallback_branch e f (locals_of K c) (start_turn c lp) = (s', fx)"
    "c' = cfg s'" "guard BranchB (l_mode (locals_of K c)) (sel (start_turn c lp))"
  using en res
proof (rule tick_guild_enabled)
  fix s1 fx1 s2 fx2 s3 fx3
  let ?l = "locals_of K c"
  assume a: "custom_branch K e f ?l (start_turn c lp) = (s1, fx1)"
    and b: "fallback_branch e f ?l s1 = (s2, fx2)"
    and d: "daily_branch e f ?l s2 = (s3, fx3)"
    and c': "c' = cfg s3" and fx: "fx = fx1 @ fx2 @ fx3"
  have m: "l_mode ?l = ''custom''" by (rule mode_custom [OF md])
  have "custom_branch K e f ?l (start_turn c lp) = (start_turn c lp, [])"
    by (simp add: custom_branch_def guard_def none)
  with a have 1: "s1 = start_turn c lp" "fx1 = []"
    by simp_all
  have "daily_branch e f ?l s2 = (s2, [])"
    by (simp add: daily_branch_def guard_def m)
  with d have 3: "s3 = s2" "fx3 = []"
    by simp_all
  from b have "fallback_branch e f ?l (start_turn c lp) = (s2, fx)"
    by (simp add: 1 3 fx)
  moreover have "guard BranchB (l_mode ?l) (sel (start_turn c lp))"
    by (simp add: guard_def m none)
  ultimately show ?thesis
    using c' 3 by (intro that [of s2]) simp_all
qed

lemma daily_turn:
  assumes en: "enabled e c" and md: "l_mode (locals_of K c) = ''daily''"
    and res: "tick_guild K e f c lp = (c', lp', fx)"
  obtains s' where "daily_branch e f (locals_of K c) (start_turn c lp) = (s', fx)"
    "c' = cfg s'" "guard BranchC (l_mode (locals_of K c)) (sel (start_turn c lp))"
  using en res
proof (rule tick_guild_enabled)
  fix s1 fx1 s2 fx2 s3 fx3
  let ?l = "locals_of K c"
  assume a: "custom_branch K e f ?l (start_turn c lp) = (s1, fx1)"
    and b: "fallback_branch e f ?l s1 = (s2, fx2)"
    and d: "daily_branch e f ?l s2 = (s3, fx3)"
    and c': "c' = cfg s3" and fx: "fx = fx1 @ fx2 @ fx3"
  have "custom_branch K e f ?l (start_turn c lp) = (start_turn c lp, [])"
    by (simp add: custom_branch_def guard_def md)
  with a have 1: "s1 = start_turn c lp" "fx1 = []"
    by simp_all
  have "fallback_branch e f ?l s1 = (s1, [])"
    by (simp add: fallback_branch_def guard_def md)
  with b have 2: "s2 = s1" "fx2 = []"
    by simp_all
  from d have "daily_branch e f ?l (start_turn c lp) = (s3, fx)"
    by (simp add: 1 2 fx)
  moreover have "guard BranchC (l_mode ?l) (sel (start_turn c lp))"
    by (simp add: guard_def md)
  ultimately show ?thesis
    using c' by (intro that [of s3]) simp_all
qed

text \<open>
  Claim C8, as the code has it. A tenant in custom mode with no selected match whose
  fallback summary is due. The merge holds, of the records of today's matches followed by the
  current matches, those that no later record with the same identity replaces (so a current
  record wins over a scheduled one) and whose identity is not \<^verbatim>\<open>__proto__\<close>. The
  matches of the summary's embeds are records of the merge that are international, or
  domestic or first-class and Indian domestic, and that pass the gender filter, the team
  filter and the test for today or live; when the sends and saves of the turn complete, they
  are all of these. The tenant's category filters play no part. The same holds on every
  entry into the branch with a due timestamp, also after the custom branch has removed the
  last selected match.
\<close>

theorem fallback_summary_set:
  assumes en: "enabled e c" and md: "mode c = Some ''custom''"
    and none: "or_nil (selected_match_ids c) = []"
    and due: "fallback_summary c = Some T" "T \<noteq> 0" "of_int T \<le> now e"
    and res: "tick_guild K e f c lp = (c', lp', fx)"
  shows "set (summary_matches fx) \<subseteq>
           {m. latest (f_todays f @ f_current f) m \<and> matchIdOf m \<noteq> ''__proto__''
               \<and> (guessCategory m = ''international''
                    \<or> ((guessCategory m = ''domestic'' \<or> guessCategory m = ''first-class'')
                        \<and> isIndianDomestic m))
               \<and> genderAllowed m (Some (case gender_filters c of
                                          None \<Rightarrow> [''men'', ''women''] | Some gs \<Rightarrow> gs))
               \<and> teamAllowed m (Some (or_nil (team_filters c)))
               \<and> isTodayOrLive (utcDate e) (today e) m}
     \<and> (reliable f \<longrightarrow> set (summary_matches fx) =
           {m. latest (f_todays f @ f_current f) m \<and> matchIdOf m \<noteq> ''__proto__''
               \<and> (guessCategory m = ''international''
                    \<or> ((guessCategory m = ''domestic'' \<or> guessCategory m = ''first-class'')
                        \<and> isIndianDomestic m))
               \<and> genderAllowed m (Some (case gender_filters c of
                                          None \<Rightarrow> [''men'', ''women''] | Some gs \<Rightarrow> gs))
               \<and> teamAllowed m (Some (or_nil (team_filters c)))
               \<and> isTodayOrLive (utcDate e) (today e) m})
     \<and> (\<forall>m \<in> set (summary_matches fx).
           matchIdOf m \<in> matchIdOf ` set (f_current f) \<longrightarrow> m \<in> set (f_current f))
     \<and> (reliable f \<longrightarrow>
          (\<forall>fs. set (summary_matches (snd (snd (tick_guild K e f (c\<lparr> filters := fs \<rparr>) lp))))
                  = set (summary_matches fx)))
     \<and> (\<forall>l s. \<not> thrown s \<and> guard BranchB (l_mode l) (sel s)
             \<and> fallback_summary (cfg s) = Some T
           \<longrightarrow> set (summary_matches (snd (fallback_branch e f l s))) \<subseteq>
                 {m. latest (f_todays f @ f_current f) m \<and> matchIdOf m \<noteq> ''__proto__''
                     \<and> (guessCategory m = ''international''
                          \<or> ((guessCategory m = ''domestic''
                               \<or> guessCategory m = ''first-class'') \<and> isIndianDomestic m))
                     \<and> genderAllowed m (Some (l_genders l))
                     \<and> teamAllowed m (Some (l_teams l))
                     \<and> isTodayOrLive (utcDate e) (today e) m}
               \<and> (reliable f \<longrightarrow>
                   set (summary_matches (snd (fallback_branch e f l s))) =
                   {m. latest (f_todays f @ f_current f) m \<and> matchIdOf m \<noteq> ''__proto__''
                     \<and> (guessCategory m = ''international''
                          \<or> ((guessCategory m = ''domestic''
                               \<or> guessCategory m = ''first-class'') \<and> isIndianDomestic m))
                     \<and> genderAllowed m (Some (l_genders l))
                     \<and> teamAllowed m (Some (l_teams l))
                     \<and> isTodayOrLive (utcDate e) (today e) m}))"
proof -
  let ?M = "byId_values (f_todays f @ f_current f)"
  let ?S = "\<lambda>c. {m. latest (f_todays f @ f_current f) m \<and> matchIdOf m \<noteq> ''__proto__''
               \<and> (guessCategory m = ''international''
                    \<or> ((guessCategory m = ''domestic'' \<or> guessCategory m = ''first-class'')
                        \<and> isIndianDomestic m))
               \<and> genderAllowed m (Some (case gender_filters c of
                                          None \<Rightarrow> [''men'', ''women''] | Some gs \<Rightarrow> gs))
               \<and> teamAllowed m (Some (or_nil (team_filters c)))
               \<and> isTodayOrLive (utcDate e) (today e) m}"
  have S: "set (filter (fallback_ok e (locals_of K d)) ?M) = ?S d" for d
    by (auto simp: byId_values_latest fallback_ok_iff)
  have main: "set (summary_matches gx) \<subseteq> ?S d \<and> (reliable f \<longrightarrow> set (summary_matches gx) = ?S d)"
    if "enabled e d" "mode d = Some ''custom''" "or_nil (selected_match_ids d) = []"
      "fallback_summary d = Some T" "tick_guild K e f d lp = (d', l', gx)" for d d' l' gx
    using that(1,2,3,5)
  proof (rule fallback_turn)
    fix s'
    assume b: "fallback_branch e f (locals_of K d) (start_turn d lp) = (s', gx)"
      and g: "guard BranchB (l_mode (locals_of K d)) (sel (start_turn d lp))"
    have nt: "\<not> thrown (start_turn d lp)"
      by simp
    have ts: "fallback_summary (cfg (start_turn d lp)) = Some T"
      using that(4) by simp
    note fd = fallback_branch_due [OF nt g ts due(2,3) b]
    from fd(1) have "set (summary_matches gx) \<subseteq> ?S d"
      unfolding S .
    moreover have "set (summary_matches gx) = ?S d" if "reliable f"
    proof -
      from fd(2) fd(6) [OF that]
      have "set (summary_matches gx) = set (filter (fallback_ok e (locals_of K d)) ?M)"
        by simp
      then show ?thesis unfolding S .
    qed
    ultimately show ?thesis by blast
  qed
  have 1: "set (summary_matches fx) \<subseteq> ?S c"
    "reliable f \<longrightarrow> set (summary_matches fx) = ?S c"
    using main [OF en md none due(1) res] by blast+
  have 2: "matchIdOf m \<in> matchIdOf ` set (f_current f) \<longrightarrow> m \<in> set (f_current f)"
    if "m \<in> set (summary_matches fx)" for m
    using that 1(1) latest_append_right [of "f_todays f" "f_current f" m] by auto
  have 3: "set (summary_matches (snd (snd (tick_guild K e f (c\<lparr> filters := fs \<rparr>) lp))))
              = set (summary_matches fx)" if r: "reliable f" for fs
  proof -
    let ?d = "c\<lparr> filters := fs \<rparr>"
    let ?r = "tick_guild K e f ?d lp"
    have q: "?r = (fst ?r, fst (snd ?r), snd (snd ?r))" by simp
    have "set (summary_matches (snd (snd ?r))) = ?S ?d"
      using main [OF _ _ _ _ q] en md none due(1) r by (simp add: enabled_def)
    with 1(2) r show ?thesis by simp
  qed
  have 4: "set (summary_matches (snd (fallback_branch e f l s))) \<subseteq>
                 {m. latest (f_todays f @ f_current f) m \<and> matchIdOf m \<noteq> ''__proto__''
                     \<and> (guessCategory m = ''international''
                          \<or> ((guessCategory m = ''domestic''
                               \<or> guessCategory m = ''first-class'') \<and> isIndianDomestic m))
                     \<and> genderAllowed m (Some (l_genders l))
                     \<and> teamAllowed m (Some (l_teams l))
                     \<and> isTodayOrLive (utcDate e) (today e) m}
               \<and> (reliable f \<longrightarrow>
                   set (summary_matches (snd (fallback_branch e f l s))) =
                   {m. latest (f_todays f @ f_current f) m \<and> matchIdOf m \<noteq> ''__proto__''
                     \<and> (guessCategory m = ''international''
                          \<or> ((guessCategory m = ''domestic''
                               \<or> guessCategory m = ''first-class'') \<and> isIndianDomestic m))
                     \<and> genderAllowed m (Some (l_genders l))
                     \<and> teamAllowed m (Some (l_teams l))
                     \<and> isTodayOrLive (utcDate e) (today e) m})"
    if h: "\<not> thrown s \<and> guard BranchB (l_mode l) (sel s) \<and> fallback_summary (cfg s) = Some T"
    for l s
  proof -
    let ?b = "fallback_branch e f l s"
    have b: "?b = (fst ?b, snd ?b)" by simp
    from h have h': "\<not> thrown s" "guard BranchB (l_mode l) (sel s)"
      "fallback_summary (cfg s) = Some T"
      by simp_all
    note fd = fallback_branch_due [OF h' due(2,3) b]
    have S': "set (filter (fallback_ok e l) ?M) =
                 {m. latest (f_todays f @ f_current f) m \<and> matchIdOf m \<noteq> ''__proto__''
                     \<and> (guessCategory m = ''international''
                          \<or> ((guessCategory m = ''domestic''
                               \<or> guessCategory m = ''first-class'') \<and> isIndianDomestic m))
                     \<and> genderAllowed m (Some (l_genders l))
                     \<and> teamAllowed m (Some (l_teams l))
                     \<and> isTodayOrLive (utcDate e) (today e) m}"
      by (auto simp: byId_values_latest fallback_ok_def Let_def)
    from fd(1) have "set (summary_matches (snd ?b)) \<subseteq> set (filter (fallback_ok e l) ?M)" .
    moreover have "set (summary_matches (snd ?b)) = set (filter (fallback_ok e l) ?M)"
      if "reliable f"
      using fd(2) fd(6) [OF that] by simp
    ultimately show ?thesis
      by (simp only: S') blast
  qed
  from 1 2 3 4 show ?thesis by blast
qed

text \<open>The won Test match replaces its older record and is posted although the tenant's
  categories admit franchise matches only.\<close>

theorem fallback_summary_set_witness:
  "enabled (ex_env 1709326845) ex_cfg_franchise \<and> mode ex_cfg_franchise = Some ''custom''
   \<and> or_nil (selected_match_ids ex_cfg_franchise) = []
   \<and> fallback_summary ex_cfg_franchise = Some 1709326800 \<and> (1709326800 :: int) \<noteq> 0
   \<and> of_int 1709326800 \<le> now (ex_env 1709326845) \<and> reliable ex_merge
   \<and> summary_matches (snd (snd (tick_guild ex_params (ex_env 1709326845) ex_merge
        ex_cfg_franchise Map.empty))) = [ex_won, ex_ipl]
   \<and> latest (f_todays ex_merge @ f_current ex_merge) ex_won
   \<and> \<not> latest (f_todays ex_merge @ f_current ex_merge) ex_stumps
   \<and> guessCategory ex_won = ''international''"
proof -
  let ?r = "tick_guild ex_params (ex_env 1709326845) ex_merge ex_cfg_franchise Map.empty"
  have h: "enabled (ex_env 1709326845) ex_cfg_franchise"
    "mode ex_cfg_franchise = Some ''custom''"
    "or_nil (selected_match_ids ex_cfg_franchise) = []"
    "fallback_summary ex_cfg_franchise = Some 1709326800" "(1709326800 :: int) \<noteq> 0"
    "of_int 1709326800 \<le> now (ex_env 1709326845)"
    by code_simp+
  have ok: "reliable ex_merge"
    by (simp add: reliable_def ex_merge_def ex_feeds_def)
  have r: "?r = (fst ?r, fst (snd ?r), snd (snd ?r))" by simp
  have v: "summary_matches (snd (snd ?r)) = [ex_won, ex_ipl]" by code_simp
  have n: "ex_stumps \<noteq> ex_won" "ex_stumps \<noteq> ex_ipl" "matchIdOf ex_stumps \<noteq> ''__proto__''"
    by code_simp+
  note t = fallback_summary_set [OF h r]
  let ?S = "{m. latest (f_todays ex_merge @ f_current ex_merge) m
               \<and> matchIdOf m \<noteq> ''__proto__''
               \<and> (guessCategory m = ''international''
                    \<or> ((guessCategory m = ''domestic'' \<or> guessCategory m = ''first-class'')
                        \<and> isIndianDomestic m))
               \<and> genderAllowed m (Some (case gender_filters ex_cfg_franchise of
                                          None \<Rightarrow> [''men'', ''women''] | Some gs \<Rightarrow> gs))
               \<and> teamAllowed m (Some (or_nil (team_filters ex_cfg_franchise)))
               \<and> isTodayOrLive (utcDate (ex_env 1709326845)) (today (ex_env 1709326845)) m}"
  from t ok have "set (summary_matches (snd (snd ?r))) = ?S" by blast
  with v have S: "?S = {ex_won, ex_ipl}" by simp
  have "ex_won \<in> ?S" unfolding S by simp
  then have 1: "latest (f_todays ex_merge @ f_current ex_merge) ex_won" by simp
  have good: "(guessCategory ex_stumps = ''international''
               \<or> ((guessCategory ex_stumps = ''domestic''
                    \<or> guessCategory ex_stumps = ''first-class'') \<and> isIndianDomestic ex_stumps))
            \<and> genderAllowed ex_stumps (Some (case gender_filters ex_cfg_franchise of
                                          None \<Rightarrow> [''men'', ''women''] | Some gs \<Rightarrow> gs))
            \<and> teamAllowed ex_stumps (Some (or_nil (team_filters ex_cfg_franchise)))
            \<and> isTodayOrLive (utcDate (ex_env 1709326845)) (today (ex_env 1709326845)) ex_stumps"
    by code_simp
  have "ex_stumps \<notin> ?S" unfolding S using n by simp
  with good n(3) have 2: "\<not> latest (f_todays ex_merge @ f_current ex_merge) ex_stumps" by simp
  have 3: "guessCategory ex_won = ''international''" by code_simp
  from h ok v 1 2 3 show ?thesis by blast
qed

text \<open>
  Two runs against the claim as it is stated. In a channel that refuses every message, the
  first message of the due summary throws: no match is emitted, although the won Test match
  is in the merge and passes every test, and the timestamp stays as it was. And a record
  whose identity is \<^verbatim>\<open>__proto__\<close> is not emitted although it is the only record of
  its identity and passes every test.
\<close>

theorem fallback_summary_counterexample:
  "enabled (ex_env 1709326845) ex_cfg_untracked \<and> mode ex_cfg_untracked = Some ''custom''
   \<and> or_nil (selected_match_ids ex_cfg_untracked) = []
   \<and> fallback_summary ex_cfg_untracked = Some 1709326800
   \<and> of_int 1709326800 \<le> now (ex_env 1709326845)
   \<and> f_todays (ex_refused ex_merge) @ f_current (ex_refused ex_merge)
       = [ex_stumps, ex_ipl, ex_won]
   \<and> fallback_ok (ex_env 1709326845) (locals_of ex_params ex_cfg_untracked) ex_won
   \<and> snd (snd (tick_guild ex_params (ex_env 1709326845) (ex_refused ex_merge)
        ex_cfg_untracked Map.empty)) = []
   \<and> fst (tick_guild ex_params (ex_env 1709326845) (ex_refused ex_merge)
        ex_cfg_untracked Map.empty) = ex_cfg_untracked
   \<and> f_todays (ex_feeds [ex_proto]) @ f_current (ex_feeds [ex_proto]) = [ex_proto]
   \<and> matchIdOf ex_proto = ''__proto__''
   \<and> fallback_ok (ex_env 1709326845) (locals_of ex_params ex_cfg_untracked) ex_proto
   \<and> snd (snd (tick_guild ex_params (ex_env 1709326845) (ex_feeds [ex_proto])
        ex_cfg_untracked Map.empty))
       = [Send NoFallbackMatches, Send (TomorrowFixtures []),
          Save (ex_cfg_untracked \<lparr> fallback_summary := Some 1709413200 \<rparr>)]"
  by code_simp

subsection \<open>The daily slot\<close>

lemma next_day_eq: "\<bar>T\<bar> \<le> 8640000000000 \<Longrightarrow> next_day T = Some (T + 86400)"
  by (simp add: next_day_def Date_getTime_def)

text \<open>
  Claim C5. A daily timestamp \<open>T\<close> that is set (not 0) and within the range of JavaScript
  dates, serviced by a tick at \<open>T + \<delta>\<close> with \<open>\<delta> \<ge> 0\<close>, for the fallback summary of a tenant
  in custom mode with no selected match and for the summary of a tenant in daily mode, on a
  whole turn and on every entry into either branch. The timestamp is written once, after the
  messages of the summary, and the value written is \<open>T + 86400\<close>: after the turn it is \<open>T\<close>
  (when a message has thrown) or \<open>T + 86400\<close>, every entry that the turn saves holds
  \<open>T + 86400\<close>, and when the sends and saves complete the timestamp is \<open>T + 86400\<close> and the
  entry with it is what the turn saves last.
\<close>

theorem daily_slot_stable:
  assumes T: "T \<noteq> 0" "\<bar>T\<bar> \<le> 8640000000000" and late: "now e = of_int T + \<delta>" "0 \<le> \<delta>"
  shows "(enabled e c \<and> mode c = Some ''custom'' \<and> or_nil (selected_match_ids c) = []
          \<and> fallback_summary c = Some T \<and> tick_guild K e f c lp = (c', lp', fx)
        \<longrightarrow> (fallback_summary c' = Some T \<or> fallback_summary c' = Some (T + 86400))
            \<and> (\<forall>d \<in> set (saved fx). fallback_summary d = Some (T + 86400))
            \<and> (reliable f \<longrightarrow> fallback_summary c' = Some (T + 86400)
                              \<and> last_saved fx = Some c'))
     \<and> (enabled e c \<and> l_mode (locals_of K c) = ''daily'' \<and> next_summary c = Some T
          \<and> tick_guild K e f c lp = (c', lp', fx)
        \<longrightarrow> (next_summary c' = Some T \<or> next_summary c' = Some (T + 86400))
            \<and> (\<forall>d \<in> set (saved fx). next_summary d = Some (T + 86400))
            \<and> (reliable f \<longrightarrow> next_summary c' = Some (T + 86400)
                              \<and> last_saved fx = Some c'))
     \<and> (\<not> thrown s \<and> guard BranchB (l_mode l) (sel s) \<and> fallback_summary (cfg s) = Some T
        \<longrightarrow> (fallback_summary (cfg (fst (fallback_branch e f l s))) = Some T
               \<or> fallback_summary (cfg (fst (fallback_branch e f l s))) = Some (T + 86400))
            \<and> (reliable f
                 \<longrightarrow> fallback_summary (cfg (fst (fallback_branch e f l s))) = Some (T + 86400)))
     \<and> (\<not> thrown s \<and> guard BranchC (l_mode l) (sel s) \<and> next_summary (cfg s) = Some T
        \<longrightarrow> (next_summary (cfg (fst (daily_branch e f l s))) = Some T
               \<or> next_summary (cfg (fst (daily_branch e f l s))) = Some (T + 86400))
            \<and> (reliable f
                 \<longrightarrow> next_summary (cfg (fst (daily_branch e f l s))) = Some (T + 86400)))"
proof -
  from late have due: "of_int T \<le> now e" by simp
  note nd = next_day_eq [OF T(2)]
  have 1: "(fallback_summary c' = Some T \<or> fallback_summary c' = Some (T + 86400))
            \<and> (\<forall>d \<in> set (saved fx). fallback_summary d = Some (T + 86400))
            \<and> (reliable f \<longrightarrow> fallback_summary c' = Some (T + 86400)
                              \<and> last_saved fx = Some c')"
    if h: "enabled e c" "mode c = Some ''custom''" "or_nil (selected_match_ids c) = []"
      "fallback_summary c = Some T" "tick_guild K e f c lp = (c', lp', fx)"
    using h(1,2,3,5)
  proof (rule fallback_turn)
    fix s'
    assume b: "fallback_branch e f (locals_of K c) (start_turn c lp) = (s', fx)"
      and c': "c' = cfg s'"
      and g: "guard BranchB (l_mode (locals_of K c)) (sel (start_turn c lp))"
    have nt: "\<not> thrown (start_turn c lp)"
      by simp
    have ts: "fallback_summary (cfg (start_turn c lp)) = Some T"
      using h(4) by simp
    note fd = fallback_branch_due [OF nt g ts T(1) due b]
    from fd(3,4,5,6) show ?thesis
      by (auto simp: c' nd)
  qed
  have 2: "(next_summary c' = Some T \<or> next_summary c' = Some (T + 86400))
            \<and> (\<forall>d \<in> set (saved fx). next_summary d = Some (T + 86400))
            \<and> (reliable f \<longrightarrow> next_summary c' = Some (T + 86400)
                              \<and> last_saved fx = Some c')"
    if h: "enabled e c" "l_mode (locals_of K c) = ''daily''" "next_summary c = Some T"
      "tick_guild K e f c lp = (c', lp', fx)"
    using h(1,2,4)
  proof (rule daily_turn)
    fix s'
    assume b: "daily_branch e f (locals_of K c) (start_turn c lp) = (s', fx)"
      and c': "c' = cfg s'"
      and g: "guard BranchC (l_mode (locals_of K c)) (sel (start_turn c lp))"
    have nt: "\<not> thrown (start_turn c lp)"
      by simp
    have ts: "next_summary (cfg (start_turn c lp)) = Some T"
      using h(3) by simp
    note dd = daily_branch_due [OF nt g ts T(1) due b]
    from dd(3,4,5,6) show ?thesis
      by (auto simp: c' nd)
  qed
  have 3: "(fallback_summary (cfg (fst (fallback_branch e f l s))) = Some T
               \<or> fallback_summary (cfg (fst (fallback_branch e f l s))) = Some (T + 86400))
            \<and> (reliable f
                 \<longrightarrow> fallback_summary (cfg (fst (fallback_branch e f l s))) = Some (T + 86400))"
    if h: "\<not> thrown s" "guard BranchB (l_mode l) (sel s)" "fallback_summary (cfg s) = Some T"
  proof -
    let ?b = "fallback_branch e f l s"
    have b: "?b = (fst ?b, snd ?b)" by simp
    note fd = fallback_branch_due [OF h T(1) due b]
    from fd(3,4,6) show ?thesis
      by (auto simp: nd)
  qed
  have 4: "(next_summary (cfg (fst (daily_branch e f l s))) = Some T
               \<or> next_summary (cfg (fst (daily_branch e f l s))) = Some (T + 86400))
            \<and> (reliable f
                 \<longrightarrow> next_summary (cfg (fst (daily_branch e f l s))) = Some (T + 86400))"
    if h: "\<not> thrown s" "guard BranchC (l_mode l) (sel s)" "next_summary (cfg s) = Some T"
  proof -
    let ?b = "daily_branch e f l s"
    have b: "?b = (fst ?b, snd ?b)" by simp
    note dd = daily_branch_due [OF h T(1) due b]
    from dd(3,4,6) show ?thesis
      by (auto simp: nd)
  qed
  from 1 2 3 4 show ?thesis by blast
qed

text \<open>A tick 45 seconds late: the timestamp moves by a day when the messages are sent, and
  stays when the channel refuses them.\<close>

theorem daily_slot_stable_witness:
  "(1709326800 :: int) \<noteq> 0 \<and> \<bar>1709326800 :: int\<bar> \<le> 8640000000000
   \<and> now (ex_env 1709326845) = of_int 1709326800 + 45 \<and> (0 :: rat) \<le> 45
   \<and> enabled (ex_env 1709326845) ex_cfg_untracked \<and> mode ex_cfg_untracked = Some ''custom''
   \<and> or_nil (selected_match_ids ex_cfg_untracked) = []
   \<and> fallback_summary ex_cfg_untracked = Some 1709326800 \<and> reliable ex_merge
   \<and> fallback_summary (fst (tick_guild ex_params (ex_env 1709326845) ex_merge
        ex_cfg_untracked Map.empty)) = Some (1709326800 + 86400)
   \<and> enabled (ex_env 1709326845) ex_cfg_daily
   \<and> l_mode (locals_of ex_params ex_cfg_daily) = ''daily''
   \<and> next_summary ex_cfg_daily = Some 1709326800
   \<and> next_summary (fst (tick_guild ex_params (ex_env 1709326845) ex_merge
        ex_cfg_daily Map.empty)) = Some (1709326800 + 86400)
   \<and> fallback_summary (fst (tick_guild ex_params (ex_env 1709326845) (ex_refused ex_merge)
        ex_cfg_untracked Map.empty)) = Some 1709326800
   \<and> saved (snd (snd (tick_guild ex_params (ex_env 1709326845) (ex_refused ex_merge)
        ex_cfg_untracked Map.empty))) = []"
proof -
  let ?r = "tick_guild ex_params (ex_env 1709326845) ex_merge ex_cfg_untracked Map.empty"
  let ?q = "tick_guild ex_params (ex_env 1709326845) ex_merge ex_cfg_daily Map.empty"
  let ?u = "tick_guild ex_params (ex_env 1709326845) (ex_refused ex_merge) ex_cfg_untracked
              Map.empty"
  have T: "(1709326800 :: int) \<noteq> 0" "\<bar>1709326800 :: int\<bar> \<le> 8640000000000"
    by simp_all
  have late: "now (ex_env 1709326845) = of_int 1709326800 + 45" "(0 :: rat) \<le> 45"
    by (simp_all add: ex_env_def)
  have b: "enabled (ex_env 1709326845) ex_cfg_untracked \<and> mode ex_cfg_untracked = Some ''custom''
     \<and> or_nil (selected_match_ids ex_cfg_untracked) = []
     \<and> fallback_summary ex_cfg_untracked = Some 1709326800"
    by code_simp
  have d: "enabled (ex_env 1709326845) ex_cfg_daily
     \<and> l_mode (locals_of ex_params ex_cfg_daily) = ''daily''
     \<and> next_summary ex_cfg_daily = Some 1709326800"
    by code_simp
  have ok: "reliable ex_merge"
    by (simp add: reliable_def ex_merge_def ex_feeds_def)
  have r: "?r = (fst ?r, fst (snd ?r), snd (snd ?r))" by simp
  have q: "?q = (fst ?q, fst (snd ?q), snd (snd ?q))" by simp
  have u: "fallback_summary (fst ?u) = Some 1709326800" "saved (snd (snd ?u)) = []"
    by code_simp+
  from daily_slot_stable [OF T late, of ex_cfg_untracked ex_params ex_merge Map.empty
      "fst ?r" "fst (snd ?r)" "snd (snd ?r)"] b r ok
  have 1: "fallback_summary (fst ?r) = Some (1709326800 + 86400)"
    by blast
  from daily_slot_stable [OF T late, of ex_cfg_daily ex_params ex_merge Map.empty
      "fst ?q" "fst (snd ?q)" "snd (snd ?q)"] d q ok
  have 2: "next_summary (fst ?q) = Some (1709326800 + 86400)"
    by blast
  from T late b d ok 1 2 u show ?thesis by blast
qed

subsection \<open>The branches of one turn\<close>

text \<open>
  Claim C3, as the code has it. Evaluated on one mode and one selection, the three
  conditions never hold together, and exactly one holds when the mode is custom or daily.
  A turn evaluates them one after the other on the selection as the custom branch leaves
  it: it enters no branch, one branch, or the custom branch and then the fallback branch;
  the latter only when the custom branch has removed every selected match. An enabled
  tenant whose mode is custom or daily enters at least one; a tenant that is not enabled,
  or whose mode is neither, enters none.
\<close>

theorem branch_guards:
  "(md = ''custom'' \<or> md = ''daily''
      \<longrightarrow> length (filter (\<lambda>b. guard b md s) [BranchA, BranchB, BranchC]) = 1)
   \<and> length (filter (\<lambda>b. guard b md s) [BranchA, BranchB, BranchC]) \<le> 1
   \<and> branches_entered K e f c lp
       \<in> {[], [BranchA], [BranchA, BranchB], [BranchB], [BranchC]}
   \<and> (enabled e c \<and> (l_mode (locals_of K c) = ''custom'' \<or> l_mode (locals_of K c) = ''daily'')
      \<longrightarrow> branches_entered K e f c lp \<noteq> [])
   \<and> (branches_entered K e f c lp = [BranchA, BranchB]
      \<longrightarrow> or_nil (selected_match_ids c) \<noteq> []
          \<and> or_nil (selected_match_ids (fst (tick_guild K e f c lp))) = [])
   \<and> (\<not> enabled e c
        \<or> (l_mode (locals_of K c) \<noteq> ''custom'' \<and> l_mode (locals_of K c) \<noteq> ''daily'')
      \<longrightarrow> branches_entered K e f c lp = [])"
proof -
  have 1: "md = ''custom'' \<or> md = ''daily''
      \<longrightarrow> length (filter (\<lambda>b. guard b md s) [BranchA, BranchB, BranchC]) = 1"
    by (auto simp: guard_def)
  have 2: "length (filter (\<lambda>b. guard b md s) [BranchA, BranchB, BranchC]) \<le> 1"
    by (auto simp: guard_def)
  let ?l = "locals_of K c" and ?s0 = "start_turn c lp"
  obtain s1 fx1 where a: "custom_branch K e f ?l ?s0 = (s1, fx1)"
    by (cases "custom_branch K e f ?l ?s0")
  obtain s2 fx2 where b: "fallback_branch e f ?l s1 = (s2, fx2)"
    by (cases "fallback_branch e f ?l s1")
  obtain s3 fx3 where d: "daily_branch e f ?l s2 = (s3, fx3)"
    by (cases "daily_branch e f ?l s2")
  have sub: "set (sel s1) \<subseteq> set (sel ?s0)"
    using custom_branch_frame(1) [OF a] .
  have sel2: "sel s2 = sel s1"
    using fallback_branch_frame [OF b] by simp
  have be: "branches_entered K e f c lp =
      (if \<not> enabled e c then []
       else (if guard BranchA (l_mode ?l) (sel ?s0) then [BranchA] else [])
            @ (if \<not> thrown s1 \<and> guard BranchB (l_mode ?l) (sel s1) then [BranchB] else [])
            @ (if \<not> thrown s2 \<and> guard BranchC (l_mode ?l) (sel s2) then [BranchC] else []))"
    by (simp add: branches_entered_def Let_def a b)
  have idle: "\<not> thrown s1" if "\<not> guard BranchA (l_mode ?l) (sel ?s0)"
    using a that by (cases rule: custom_branch_cases) simp_all
  have idle2: "\<not> thrown s2" if "\<not> thrown s1" "\<not> guard BranchB (l_mode ?l) (sel s1)"
    using b that by (cases rule: fallback_branch_cases) simp_all
  have 3: "branches_entered K e f c lp
       \<in> {[], [BranchA], [BranchA, BranchB], [BranchB], [BranchC]}"
    using sub by (auto simp: be guard_def sel2)
  have 4: "enabled e c \<and> (l_mode ?l = ''custom'' \<or> l_mode ?l = ''daily'')
      \<longrightarrow> branches_entered K e f c lp \<noteq> []"
  proof (cases "guard BranchA (l_mode ?l) (sel ?s0)")
    case True
    then show ?thesis by (simp add: be)
  next
    case nA: False
    show ?thesis
    proof (cases "guard BranchB (l_mode ?l) (sel s1)")
      case True
      with idle [OF nA] show ?thesis by (simp add: be)
    next
      case nB: False
      from idle2 [OF idle [OF nA] nB] nA nB sub show ?thesis
        by (auto simp: be guard_def sel2)
    qed
  qed
  have 5: "or_nil (selected_match_ids c) \<noteq> []
          \<and> or_nil (selected_match_ids (fst (tick_guild K e f c lp))) = []"
    if ab: "branches_entered K e f c lp = [BranchA, BranchB]"
  proof -
    from ab have en: "enabled e c" and g: "guard BranchA (l_mode ?l) (sel ?s0)"
      "guard BranchB (l_mode ?l) (sel s1)"
      by (auto simp: be guard_def split: if_splits)
    have inv: "set (or_nil (selected_match_ids (cfg s1))) = set (sel s1)"
      by (rule custom_branch_frame(3) [OF a]) simp
    from fallback_branch_frame [OF b] daily_branch_frame [OF d]
    have "selected_match_ids (cfg s3) = selected_match_ids (cfg s1)" by simp
    moreover have "fst (tick_guild K e f c lp) = cfg s3"
      using en a b d by (simp add: tick_guild_def Let_def)
    ultimately show ?thesis
      using g inv by (auto simp: guard_def)
  qed
  have 6: "\<not> enabled e c
        \<or> (l_mode ?l \<noteq> ''custom'' \<and> l_mode ?l \<noteq> ''daily'')
      \<longrightarrow> branches_entered K e f c lp = []"
    by (auto simp: be guard_def)
  from 1 2 3 4 5 6 show ?thesis by blast
qed

text \<open>The tenant of the examples: one condition holds at the start of the turn; the turn
  enters the custom branch only while the match is live, and both branches once it is
  won.\<close>

theorem branch_guards_witness:
  "length (filter (\<lambda>b. guard b ''custom'' [''test-1'']) [BranchA, BranchB, BranchC]) = 1
   \<and> length (filter (\<lambda>b. guard b ''daily'' [''test-1'']) [BranchA, BranchB, BranchC]) = 1
   \<and> enabled (ex_env 1709300000) ex_cfg \<and> l_mode (locals_of ex_params ex_cfg) = ''custom''
   \<and> branches_entered ex_params (ex_env 1709300000) (ex_feeds [ex_won]) ex_cfg Map.empty
       = [BranchA, BranchB]
   \<and> or_nil (selected_match_ids ex_cfg) \<noteq> []
   \<and> or_nil (selected_match_ids (fst (tick_guild ex_params (ex_env 1709300000)
        (ex_feeds [ex_won]) ex_cfg Map.empty))) = []
   \<and> branches_entered ex_params (ex_env 1709300000) (ex_feeds [ex_live]) ex_cfg Map.empty
       = [BranchA]"
proof -
  have h: "enabled (ex_env 1709300000) ex_cfg" "l_mode (locals_of ex_params ex_cfg) = ''custom''"
    by code_simp+
  have ab: "branches_entered ex_params (ex_env 1709300000) (ex_feeds [ex_won]) ex_cfg Map.empty
       = [BranchA, BranchB]"
    by code_simp
  have a: "branches_entered ex_params (ex_env 1709300000) (ex_feeds [ex_live]) ex_cfg Map.empty
       = [BranchA]"
    by code_simp
  from branch_guards [of "''custom''" "[''test-1'']" ex_params "ex_env 1709300000"
      "ex_feeds [ex_won]" ex_cfg Map.empty]
    branch_guards [of "''daily''" "[''test-1'']" ex_params "ex_env 1709300000"
      "ex_feeds [ex_won]" ex_cfg Map.empty] h ab a
  show ?thesis by simp
qed

text \<open>One turn of one tenant runs the custom branch and the fallback branch: it untracks
  the won match, writes the next poll time, and writes the time of the next fallback
  summary. A tenant whose stored mode is neither custom nor daily runs no branch.\<close>

theorem branch_exclusive_counterexample:
  "enabled (ex_env 1709300000) ex_cfg
   \<and> branches_entered ex_params (ex_env 1709300000) (ex_feeds [ex_won]) ex_cfg Map.empty
       = [BranchA, BranchB]
   \<and> next_due ex_cfg = None \<and> fallback_summary ex_cfg = None
   \<and> fst (tick_guild ex_params (ex_env 1709300000) (ex_feeds [ex_won]) ex_cfg Map.empty)
       = ex_cfg \<lparr> selected_match_ids := Some [], next_due := Some 1709301800,
                 fallback_summary := Some 1709326800 \<rparr>
   \<and> enabled (ex_env 1709300000) ex_cfg_weekly
   \<and> filter (\<lambda>b. guard b (l_mode (locals_of ex_params ex_cfg_weekly)) [''test-1''])
        [BranchA, BranchB, BranchC] = []
   \<and> branches_entered ex_params (ex_env 1709300000) (ex_feeds [ex_won]) ex_cfg_weekly Map.empty
       = []"
  by code_simp

subsection \<open>An absent set of categories\<close>

text \<open>
  Claim C2 fails on the code. With no set of categories, \<^verbatim>\<open>categoryAllowed\<close> rejects
  every match and the \<^verbatim>\<open>cricket-list\<close> command, which passes \<^verbatim>\<open>cfg.filters||[]\<close>,
  lists nothing; the tick replaces the absent set by all four categories, and
  \<^verbatim>\<open>genderAllowed\<close> replaces an absent set of genders by both.
\<close>

theorem absent_filters_reject_all:
  "\<not> categoryAllowed m None
   \<and> cricket_list (c\<lparr> filters := None \<rparr>) ms = []
   \<and> l_filters (locals_of K (c\<lparr> filters := None \<rparr>))
       = [''international'', ''first-class'', ''domestic'', ''franchise'']
   \<and> genderAllowed m None = (guessGender m \<in> {''men'', ''women''})"
  by (simp add: categoryAllowed_def cricket_list_def or_nil_def locals_of_def genderAllowed_def)

section \<open>Properties of the match source\<close>

lemma fetchPaginated_from_fails:
  "(\<forall>i<k. continues srv (offset + 25 * i)) \<Longrightarrow> fetchJSON (srv (offset + 25 * k)) = Inl err
   \<Longrightarrow> fetchPaginated_from srv acc offset = Some (Inl err)"
proof (induction k arbitrary: acc offset)
  case 0
  then show ?case
    by (subst fetchPaginated_from.simps) simp
next
  case (Suc k)
  from Suc.prems(1) have "continues srv (offset + 25 * 0)" by blast
  then obtain j where j: "fetchJSON (srv offset) = Inr j" "p_status j = Some ''success''"
    "int offset + 25 < (case p_totalRows j of None \<Rightarrow> 0 | Some t \<Rightarrow> t)"
    by (auto simp: continues_def split: sum.splits)
  have "\<forall>i<k. continues srv (offset + 25 + 25 * i)"
  proof (intro allI impI)
    fix i assume "i < k"
    then have "continues srv (offset + 25 * Suc i)" using Suc.prems(1) by blast
    then show "continues srv (offset + 25 + 25 * i)" by (simp add: add.assoc)
  qed
  moreover from Suc.prems(2) have "fetchJSON (srv (offset + 25 + 25 * k)) = Inl err"
    by (simp add: add.assoc)
  ultimately have "fetchPaginated_from srv (acc @ (case p_data j of None \<Rightarrow> [] | Some d \<Rightarrow> d))
      (offset + 25) = Some (Inl err)"
    by (rule Suc.IH)
  with j show ?case
    by (subst fetchPaginated_from.simps) (simp add: Let_def)
qed

lemma fetchPaginated_fails:
  "(\<forall>i<k. continues srv (25 * i)) \<Longrightarrow> fetchJSON (srv (25 * k)) = Inl err
   \<Longrightarrow> fetchPaginated srv = Some (Inl err)"
  using fetchPaginated_from_fails [of k srv 0 err "[]"] by (simp add: fetchPaginated_def)

text \<open>
  Claim C9. Whenever one of the paginated fetches ends in an error, its safe wrapper returns
  the empty list. It does end in that error when any page fails (no response, a status
  outside 200..299, or a body that is not JSON) after pages that each asked for the next
  one: what was collected from the earlier pages is dropped. \<^verbatim>\<open>fetchScorecard\<close> returns
  the error of its request to its caller.
\<close>

theorem upstream_failure:
  "(getCurrentMatches up = Some (Inl err) \<longrightarrow> getCurrentMatchesSafe up = Some [])
   \<and> (getTodayMatches dateOf day up = Some (Inl err)
        \<longrightarrow> getTodayMatchesSafe dateOf day up = Some [])
   \<and> (getMatchesForISO dateOf up isoDay = Some (Inl err)
        \<longrightarrow> getMatchesForISOSafe dateOf up isoDay = Some [])
   \<and> ((\<forall>i<k. continues (currentMatches up) (25 * i))
        \<and> fetchJSON (currentMatches up (25 * k)) = Inl err
      \<longrightarrow> getCurrentMatches up = Some (Inl err) \<and> getCurrentMatchesSafe up = Some [])
   \<and> ((\<forall>i<k. continues (matches up) (25 * i)) \<and> fetchJSON (matches up (25 * k)) = Inl err
      \<longrightarrow> getTodayMatches dateOf day up = Some (Inl err)
          \<and> getTodayMatchesSafe dateOf day up = Some []
          \<and> getMatchesForISO dateOf up isoDay = Some (Inl err)
          \<and> getMatchesForISOSafe dateOf up isoDay = Some [])
   \<and> (fetchJSON (match_scorecard up matchId) = Inl err \<longrightarrow> fetchScorecard up matchId = Inl err)
   \<and> fetchJSON (NoResponse :: page response) = Inl NetworkError
   \<and> (\<not> (200 \<le> code \<and> code \<le> 299)
        \<longrightarrow> fetchJSON (Response code (body :: page option)) = Inl (HttpError code))
   \<and> (200 \<le> code \<and> code \<le> 299
        \<longrightarrow> fetchJSON (Response code (None :: page option)) = Inl ParseError)"
proof -
  have 1: "getCurrentMatches up = Some (Inl err)" "getCurrentMatchesSafe up = Some []"
    if "\<forall>i<k. continues (currentMatches up) (25 * i)"
      "fetchJSON (currentMatches up (25 * k)) = Inl err"
    using fetchPaginated_fails [OF that]
    by (simp_all add: getCurrentMatches_def getCurrentMatchesSafe_def catch_empty_def)
  have 2: "getTodayMatches dateOf day up = Some (Inl err)"
    "getTodayMatchesSafe dateOf day up = Some []"
    "getMatchesForISO dateOf up isoDay = Some (Inl err)"
    "getMatchesForISOSafe dateOf up isoDay = Some []"
    if "\<forall>i<k. continues (matches up) (25 * i)" "fetchJSON (matches up (25 * k)) = Inl err"
    using fetchPaginated_fails [OF that]
    by (simp_all add: getTodayMatches_def getTodayMatchesSafe_def getMatchesForISO_def
        getMatchesForISOSafe_def catch_empty_def)
  have 3: "fetchScorecard up matchId = Inl err"
    if "fetchJSON (match_scorecard up matchId) = Inl err"
    using that by (simp add: fetchScorecard_def)
  have 4: "getCurrentMatches up = Some (Inl err) \<longrightarrow> getCurrentMatchesSafe up = Some []"
    "getTodayMatches dateOf day up = Some (Inl err)
        \<longrightarrow> getTodayMatchesSafe dateOf day up = Some []"
    "getMatchesForISO dateOf up isoDay = Some (Inl err)
        \<longrightarrow> getMatchesForISOSafe dateOf up isoDay = Some []"
    by (simp_all add: getCurrentMatchesSafe_def getTodayMatchesSafe_def
        getMatchesForISOSafe_def catch_empty_def)
  have 5: "fetchJSON (NoResponse :: page response) = Inl NetworkError"
    "\<not> (200 \<le> code \<and> code \<le> 299)
        \<longrightarrow> fetchJSON (Response code (body :: page option)) = Inl (HttpError code)"
    "200 \<le> code \<and> code \<le> 299
        \<longrightarrow> fetchJSON (Response code (None :: page option)) = Inl ParseError"
    by (simp_all add: fetchJSON_def)
  from 1 2 3 4 5 show ?thesis by blast
qed

text \<open>The upstream of the examples: a network error on the second page of the current
  matches, 503 on the first page of the scheduled matches, and a scorecard that cannot be
  parsed.\<close>

theorem upstream_failure_witness:
  "continues (currentMatches ex_upstream) 0
   \<and> fetchJSON (currentMatches ex_upstream (25 * 1)) = Inl NetworkError
   \<and> getCurrentMatches ex_upstream = Some (Inl NetworkError)
   \<and> getCurrentMatchesSafe ex_upstream = Some []
   \<and> fetchJSON (matches ex_upstream (25 * 0)) = Inl (HttpError 503)
   \<and> getTodayMatchesSafe (\<lambda>d. Some (take 10 d)) ''2024-03-01'' ex_upstream = Some []
   \<and> getMatchesForISOSafe (\<lambda>d. Some (take 10 d)) ex_upstream ''2024-03-02'' = Some []
   \<and> fetchJSON (match_scorecard ex_upstream ''test-1'') = Inl ParseError
   \<and> fetchScorecard ex_upstream ''test-1'' = Inl ParseError"
proof -
  have c: "\<forall>i<1. continues (currentMatches ex_upstream) (25 * i)"
    by (simp add: continues_def ex_upstream_def fetchJSON_def)
  have c': "fetchJSON (currentMatches ex_upstream (25 * 1)) = Inl NetworkError"
    by (simp add: ex_upstream_def fetchJSON_def)
  have m: "\<forall>i<0. continues (matches ex_upstream) (25 * i)"
    by simp
  have m': "fetchJSON (matches ex_upstream (25 * 0)) = Inl (HttpError 503)"
    by (simp add: ex_upstream_def fetchJSON_def)
  have s: "fetchJSON (match_scorecard ex_upstream ''test-1'') = Inl ParseError"
    by (simp add: ex_upstream_def fetchJSON_def)
  from upstream_failure [of ex_upstream NetworkError _ _ _ 1] c c'
  have 1: "getCurrentMatches ex_upstream = Some (Inl NetworkError)"
    "getCurrentMatchesSafe ex_upstream = Some []"
    by blast+
  from upstream_failure [of ex_upstream "HttpError 503" "\<lambda>d. Some (take 10 d)" "''2024-03-01''"
      "''2024-03-02''" 0] m m'
  have 2: "getTodayMatchesSafe (\<lambda>d. Some (take 10 d)) ''2024-03-01'' ex_upstream = Some []"
    "getMatchesForISOSafe (\<lambda>d. Some (take 10 d)) ex_upstream ''2024-03-02'' = Some []"
    by blast+
  from upstream_failure [of ex_upstream ParseError _ _ _ _ "''test-1''"] s
  have 3: "fetchScorecard ex_upstream ''test-1'' = Inl ParseError"
    by blast
  from c have "continues (currentMatches ex_upstream) 0" by simp
  with c' m' s 1 2 3 show ?thesis by blast
qed

end
